theory Spec2Isabelle
  imports Main "HOL-Library.Word"
begin

unbundle bit_operations_syntax

text \<open>
  A shallow embedding of the bit utilities of libnfc (parity and mirror tables, byte order,
  the ISO 14443-A checksum, the hexadecimal dump with parity marks) and of the
  anti-collision replies of the UID emulation example, with the properties proved of them.
  Bytes and the 32-bit and 64-bit unsigned integers of the source are machine words.
\<close>

section \<open>Bit utilities (bitutils.c)\<close>

type_synonym byte = "8 word"
type_synonym ui32 = "32 word"
type_synonym ui64 = "64 word"

text \<open>The two constant lookup tables, entry by entry as in the source.\<close>

definition OddParity :: "byte list" where
  "OddParity = [
    1, 0, 0, 1, 0, 1, 1, 0, 0, 1, 1, 0, 1, 0, 0, 1,
    0, 1, 1, 0, 1, 0, 0, 1, 1, 0, 0, 1, 0, 1, 1, 0,
    0, 1, 1, 0, 1, 0, 0, 1, 1, 0, 0, 1, 0, 1, 1, 0,
    1, 0, 0, 1, 0, 1, 1, 0, 0, 1, 1, 0, 1, 0, 0, 1,
    0, 1, 1, 0, 1, 0, 0, 1, 1, 0, 0, 1, 0, 1, 1, 0,
    1, 0, 0, 1, 0, 1, 1, 0, 0, 1, 1, 0, 1, 0, 0, 1,
    1, 0, 0, 1, 0, 1, 1, 0, 0, 1, 1, 0, 1, 0, 0, 1,
    0, 1, 1, 0, 1, 0, 0, 1, 1, 0, 0, 1, 0, 1, 1, 0,
    0, 1, 1, 0, 1, 0, 0, 1, 1, 0, 0, 1, 0, 1, 1, 0,
    1, 0, 0, 1, 0, 1, 1, 0, 0, 1, 1, 0, 1, 0, 0, 1,
    1, 0, 0, 1, 0, 1, 1, 0, 0, 1, 1, 0, 1, 0, 0, 1,
    0, 1, 1, 0, 1, 0, 0, 1, 1, 0, 0, 1, 0, 1, 1, 0,
    1, 0, 0, 1, 0, 1, 1, 0, 0, 1, 1, 0, 1, 0, 0, 1,
    0, 1, 1, 0, 1, 0, 0, 1, 1, 0, 0, 1, 0, 1, 1, 0,
    0, 1, 1, 0, 1, 0, 0, 1, 1, 0, 0, 1, 0, 1, 1, 0,
    1, 0, 0, 1, 0, 1, 1, 0, 0, 1, 1, 0, 1, 0, 0, 1]"

definition ByteMirror :: "byte list" where
  "ByteMirror = [
    0x00, 0x80, 0x40, 0xc0, 0x20, 0xa0, 0x60, 0xe0, 0x10, 0x90, 0x50, 0xd0, 0x30,
    0xb0, 0x70, 0xf0, 0x08, 0x88, 0x48, 0xc8, 0x28, 0xa8, 0x68, 0xe8, 0x18, 0x98,
    0x58, 0xd8, 0x38, 0xb8, 0x78, 0xf8, 0x04, 0x84, 0x44, 0xc4, 0x24, 0xa4, 0x64,
    0xe4, 0x14, 0x94, 0x54, 0xd4, 0x34, 0xb4, 0x74, 0xf4, 0x0c, 0x8c, 0x4c, 0xcc,
    0x2c, 0xac, 0x6c, 0xec, 0x1c, 0x9c, 0x5c, 0xdc, 0x3c, 0xbc, 0x7c, 0xfc, 0x02,
    0x82, 0x42, 0xc2, 0x22, 0xa2, 0x62, 0xe2, 0x12, 0x92, 0x52, 0xd2, 0x32, 0xb2,
    0x72, 0xf2, 0x0a, 0x8a, 0x4a, 0xca, 0x2a, 0xaa, 0x6a, 0xea, 0x1a, 0x9a, 0x5a,
    0xda, 0x3a, 0xba, 0x7a, 0xfa, 0x06, 0x86, 0x46, 0xc6, 0x26, 0xa6, 0x66, 0xe6,
    0x16, 0x96, 0x56, 0xd6, 0x36, 0xb6, 0x76, 0xf6, 0x0e, 0x8e, 0x4e, 0xce, 0x2e,
    0xae, 0x6e, 0xee, 0x1e, 0x9e, 0x5e, 0xde, 0x3e, 0xbe, 0x7e, 0xfe, 0x01, 0x81,
    0x41, 0xc1, 0x21, 0xa1, 0x61, 0xe1, 0x11, 0x91, 0x51, 0xd1, 0x31, 0xb1, 0x71,
    0xf1, 0x09, 0x89, 0x49, 0xc9, 0x29, 0xa9, 0x69, 0xe9, 0x19, 0x99, 0x59, 0xd9,
    0x39, 0xb9, 0x79, 0xf9, 0x05, 0x85, 0x45, 0xc5, 0x25, 0xa5, 0x65, 0xe5, 0x15,
    0x95, 0x55, 0xd5, 0x35, 0xb5, 0x75, 0xf5, 0x0d, 0x8d, 0x4d, 0xcd, 0x2d, 0xad,
    0x6d, 0xed, 0x1d, 0x9d, 0x5d, 0xdd, 0x3d, 0xbd, 0x7d, 0xfd, 0x03, 0x83, 0x43,
    0xc3, 0x23, 0xa3, 0x63, 0xe3, 0x13, 0x93, 0x53, 0xd3, 0x33, 0xb3, 0x73, 0xf3,
    0x0b, 0x8b, 0x4b, 0xcb, 0x2b, 0xab, 0x6b, 0xeb, 0x1b, 0x9b, 0x5b, 0xdb, 0x3b,
    0xbb, 0x7b, 0xfb, 0x07, 0x87, 0x47, 0xc7, 0x27, 0xa7, 0x67, 0xe7, 0x17, 0x97,
    0x57, 0xd7, 0x37, 0xb7, 0x77, 0xf7, 0x0f, 0x8f, 0x4f, 0xcf, 0x2f, 0xaf, 0x6f,
    0xef, 0x1f, 0x9f, 0x5f, 0xdf, 0x3f, 0xbf, 0x7f, 0xff]"

text \<open>\<^verbatim>\<open>byte oddparity(const byte bt)\<close>: the index is a byte, so it is always inside the table.\<close>

definition oddparity :: "byte \<Rightarrow> byte" where
  "oddparity bt = OddParity ! unat bt"

text \<open>\<^verbatim>\<open>byte mirror(byte bt)\<close>\<close>

definition mirror :: "byte \<Rightarrow> byte" where
  "mirror bt = ByteMirror ! unat bt"

text \<open>
  \<^verbatim>\<open>void mirror_bytes(byte *pbts, ui32 uiLen)\<close>. The memory object that \<open>pbts\<close> points
  into is a list of bytes, \<open>pbts\<close> being its first element; a store beyond its end is
  undefined behaviour and is the value \<open>None\<close>. The loop counter \<open>btNr\<close> is a 32-bit
  unsigned integer as in the source.
\<close>

function mirror_bytes_loop :: "byte list \<Rightarrow> ui32 \<Rightarrow> ui32 \<Rightarrow> byte list option" where
  "mirror_bytes_loop pbts btNr uiLen =
     (if btNr < uiLen then
        (if unat btNr < length pbts
         then mirror_bytes_loop (pbts[unat btNr := ByteMirror ! unat (pbts ! unat btNr)])
                (btNr + 1) uiLen
         else None)
      else Some pbts)"
  by pat_completeness auto
termination
proof (relation "measure (\<lambda>(pbts, btNr, uiLen). unat uiLen - unat btNr)")
  show "wf (measure (\<lambda>(pbts, btNr, uiLen). unat uiLen - unat btNr))"
    by simp
next
  fix pbts :: "byte list" and btNr uiLen :: ui32
  assume lt: "btNr < uiLen"
  then have below: "unat btNr < unat uiLen"
    by (simp add: word_less_nat_alt)
  moreover have "unat uiLen < 2 ^ 32"
    using unsigned_less [of uiLen] by simp
  ultimately have "unat btNr + 1 < 2 ^ 32"
    by simp
  then have "unat (btNr + 1) = Suc (unat btNr)"
    by (simp add: unat_word_ariths)
  with below show "((pbts[unat btNr := ByteMirror ! unat (pbts ! unat btNr)], btNr + 1, uiLen),
      (pbts, btNr, uiLen)) \<in> measure (\<lambda>(pbts, btNr, uiLen). unat uiLen - unat btNr)"
    by simp
qed

declare mirror_bytes_loop.simps [simp del]

definition mirror_bytes :: "byte list \<Rightarrow> ui32 \<Rightarrow> byte list option" where
  "mirror_bytes pbts uiLen = mirror_bytes_loop pbts 0 uiLen"

text \<open>
  \<^verbatim>\<open>ui32 swap_endian32(const void* pui32)\<close> and \<^verbatim>\<open>ui64 swap_endian64(const void* pui64)\<close>:
  the argument is the integer read through the pointer. The four (eight) masked and
  shifted parts are added, as in the source; the additions wrap at the word size.
\<close>

definition swap_endian32 :: "ui32 \<Rightarrow> ui32" where
  "swap_endian32 ui32N =
     push_bit 24 (ui32N AND 0xFF) + push_bit 8 (ui32N AND 0xFF00)
     + drop_bit 8 (ui32N AND 0xFF0000) + drop_bit 24 (ui32N AND 0xFF000000)"

definition swap_endian64 :: "ui64 \<Rightarrow> ui64" where
  "swap_endian64 ui64N =
     push_bit 56 (ui64N AND 0xFF) + push_bit 40 (ui64N AND 0xFF00)
     + push_bit 24 (ui64N AND 0xFF0000) + push_bit 8 (ui64N AND 0xFF000000)
     + drop_bit 8 (ui64N AND 0xFF00000000) + drop_bit 24 (ui64N AND 0xFF0000000000)
     + drop_bit 40 (ui64N AND 0xFF000000000000) + drop_bit 56 (ui64N AND 0xFF00000000000000)"

subsection \<open>CRC\<close>

text \<open>
  The body of the \<^verbatim>\<open>do { ... } while (--uiLen)\<close> loop of \<^verbatim>\<open>append_iso14443a_crc\<close>, for
  the byte \<open>b\<close> just read. \<open>bt\<close> is a byte: \<^verbatim>\<open>bt^(bt<<4)\<close> is computed on the promoted
  value and cut back to eight bits by the assignment.
\<close>

definition crc_body :: "ui32 \<Rightarrow> byte \<Rightarrow> ui32" where
  "crc_body wCrc b =
     (let bt1 = b XOR (ucast (wCrc AND 0x00FF) :: byte);
          bt2 = (ucast ((ucast bt1 :: ui32) XOR push_bit 4 (ucast bt1 :: ui32)) :: byte)
      in drop_bit 8 wCrc XOR push_bit 8 (ucast bt2 :: ui32)
           XOR push_bit 3 (ucast bt2 :: ui32) XOR drop_bit 4 (ucast bt2 :: ui32))"

text \<open>
  The loop itself. \<open>mem\<close> is the memory object \<open>pbtData\<close> points into, \<open>p\<close> the offset
  of the moving pointer from its start. The body runs before the counter is looked at,
  the counter is decremented modulo \<open>2 ^ 32\<close>, and the loop goes on while the decremented
  counter is not zero. Reading beyond the end of \<open>mem\<close> is \<open>None\<close>. The result is the
  offset of the pointer after the loop and the checksum register.
\<close>

function crc_loop :: "byte list \<Rightarrow> nat \<Rightarrow> ui32 \<Rightarrow> ui32 \<Rightarrow> (nat \<times> ui32) option" where
  "crc_loop mem p wCrc uiLen =
     (if p < length mem then
        (let wCrc' = crc_body wCrc (mem ! p);
             uiLen' = uiLen - 1
         in if uiLen' \<noteq> 0 then crc_loop mem (Suc p) wCrc' uiLen'
            else Some (Suc p, wCrc'))
      else None)"
  by pat_completeness auto
termination
proof (relation "measure (\<lambda>(mem, p, wCrc, uiLen). unat (uiLen - 1))")
  show "wf (measure (\<lambda>(mem, p, wCrc, uiLen). unat (uiLen - 1)))"
    by simp
next
  fix mem :: "byte list" and p :: nat and wCrc uiLen x xa :: ui32
  assume dec: "xa = uiLen - 1" and nz: "xa \<noteq> 0"
  from nz have "unat (xa - 1) < unat xa"
    by (rule measure_unat)
  with dec show "((mem, Suc p, x, xa), (mem, p, wCrc, uiLen))
      \<in> measure (\<lambda>(mem, p, wCrc, uiLen). unat (uiLen - 1))"
    by simp
qed

declare crc_loop.simps [simp del]

text \<open>
  \<^verbatim>\<open>void append_iso14443a_crc(byte* pbtData, ui32 uiLen)\<close>: the register starts at
  \<open>0x6363\<close>; after the loop the two bytes of the register are stored at the pointer, the
  low one first. The result is the memory object after the call.
\<close>

definition append_iso14443a_crc :: "byte list \<Rightarrow> ui32 \<Rightarrow> byte list option" where
  "append_iso14443a_crc mem uiLen =
     (case crc_loop mem 0 0x6363 uiLen of
        None \<Rightarrow> None
      | Some (p, wCrc) \<Rightarrow>
          if Suc p < length mem
          then Some (mem[p := (ucast (wCrc AND 0xFF) :: byte),
                         Suc p := (ucast (drop_bit 8 wCrc AND 0xFF) :: byte)])
          else None)"

subsection \<open>Hexadecimal dump with parity marks\<close>

text \<open>\<^verbatim>\<open>printf("%02x", b)\<close> for a byte: two lower-case hexadecimal digits.\<close>

definition hex_digit :: "nat \<Rightarrow> char" where
  "hex_digit n = ''0123456789abcdef'' ! n"

definition hex02 :: "byte \<Rightarrow> string" where
  "hex02 b = [hex_digit (unat b div 16), hex_digit (unat b mod 16)]"

text \<open>
  The \<^verbatim>\<open>for\<close> loop of \<^verbatim>\<open>print_hex_par\<close>; \<open>out\<close> is the text printed so far. Each whole
  byte is printed as two digits followed by \<^verbatim>\<open>"! "\<close> when the table entry of the byte
  differs from the byte of \<open>pbtDataPar\<close> at the same position, and by two blanks
  otherwise. A read beyond the end of either buffer is \<open>None\<close>.
\<close>

function print_hex_par_loop ::
  "byte list \<Rightarrow> byte list \<Rightarrow> ui32 \<Rightarrow> ui32 \<Rightarrow> string \<Rightarrow> string option" where
  "print_hex_par_loop pbtData pbtDataPar uiPos uiBytes out =
     (if uiPos < uiBytes then
        (if unat uiPos < length pbtData \<and> unat uiPos < length pbtDataPar
         then print_hex_par_loop pbtData pbtDataPar (uiPos + 1) uiBytes
                (out @ hex02 (pbtData ! unat uiPos)
                     @ (if OddParity ! unat (pbtData ! unat uiPos) \<noteq> pbtDataPar ! unat uiPos
                        then ''! '' else ''  ''))
         else None)
      else Some out)"
  by pat_completeness auto
termination
proof (relation "measure (\<lambda>(pbtData, pbtDataPar, uiPos, uiBytes, out). unat uiBytes - unat uiPos)")
  show "wf (measure (\<lambda>(pbtData, pbtDataPar, uiPos, uiBytes, out). unat uiBytes - unat uiPos))"
    by simp
next
  fix pbtData pbtDataPar :: "byte list" and uiPos uiBytes :: ui32 and out :: string
  assume "uiPos < uiBytes"
  then have below: "unat uiPos < unat uiBytes"
    by (simp add: word_less_nat_alt)
  moreover have "unat uiBytes < 2 ^ 32"
    using unsigned_less [of uiBytes] by simp
  ultimately have "unat uiPos + 1 < 2 ^ 32"
    by simp
  then have "unat (uiPos + 1) = Suc (unat uiPos)"
    by (simp add: unat_word_ariths)
  with below show "((pbtData, pbtDataPar, uiPos + 1, uiBytes,
        out @ hex02 (pbtData ! unat uiPos)
            @ (if OddParity ! unat (pbtData ! unat uiPos) \<noteq> pbtDataPar ! unat uiPos
               then ''! '' else ''  '')),
      (pbtData, pbtDataPar, uiPos, uiBytes, out))
      \<in> measure (\<lambda>(pbtData, pbtDataPar, uiPos, uiBytes, out). unat uiBytes - unat uiPos)"
    by simp
qed

declare print_hex_par_loop.simps [simp del]

text \<open>
  \<^verbatim>\<open>void print_hex_par(const byte* pbtData, const ui32 uiBits, const byte* pbtDataPar)\<close>:
  the whole bytes, then the byte holding the remaining bits (without a mark) when the
  bit count is not a multiple of eight, then a line feed. The result is the printed text.
\<close>

definition print_hex_par :: "byte list \<Rightarrow> ui32 \<Rightarrow> byte list \<Rightarrow> string option" where
  "print_hex_par pbtData uiBits pbtDataPar =
     (let uiBytes = uiBits div 8 in
      case print_hex_par_loop pbtData pbtDataPar 0 uiBytes [] of
        None \<Rightarrow> None
      | Some out \<Rightarrow>
          if uiBits mod 8 \<noteq> 0
          then (if unat uiBytes < length pbtData
                then Some (out @ hex02 (pbtData ! unat uiBytes) @ [CHR 0x0A])
                else None)
          else Some (out @ [CHR 0x0A]))"

section \<open>The UID emulation example (nfc-emulate-uid.c)\<close>

text \<open>
  The program variables the anti-collision replies depend on: the three global reply
  buffers and the locals \<open>pbtTx\<close>, \<open>szTxBits\<close> and \<open>quiet_output\<close> of \<open>main\<close>. The
  pointer \<open>pbtTx\<close> is null or points at the start of one of the three buffers. The
  \<^verbatim>\<open>size_t\<close> bit counts are only assigned constants and compared, so they are natural
  numbers.
\<close>

datatype tx_pointer = NULL | Ptr_abtAtqa | Ptr_abtUidBcc | Ptr_abtSak

record emulator =
  abtAtqa :: "byte list"
  abtUidBcc :: "byte list"
  abtSak :: "byte list"
  pbtTx :: tx_pointer
  szTxBits :: nat
  quiet_output :: bool

text \<open>
  The variables when \<open>main\<close> starts. \<open>abtSak\<close> has nine elements, three of them given;
  \<open>szTxBits\<close> is not initialised, its value is the parameter.
\<close>

definition initial :: "nat \<Rightarrow> emulator" where
  "initial indeterminate =
     \<lparr>abtAtqa = [0x04, 0x00],
      abtUidBcc = [0xDE, 0xAD, 0xBE, 0xAF, 0x62],
      abtSak = [0x08, 0xb6, 0xdd, 0x00, 0x00, 0x00, 0x00, 0x00, 0x00],
      pbtTx = NULL,
      szTxBits = indeterminate,
      quiet_output = False\<rparr>"

datatype exit_code = EXIT_SUCCESS | EXIT_FAILURE

text \<open>
  The UID branch of the option loop: the check byte is cleared, then each of the four
  bytes is read from two characters of the argument and folded into the check byte.
  \<open>strtol16 s\<close> stands for the C library's \<^verbatim>\<open>strtol(s, NULL, 16)\<close>; the cast to
  \<^verbatim>\<open>byte_t\<close> keeps its low eight bits.
\<close>

definition set_uid :: "(string \<Rightarrow> int) \<Rightarrow> string \<Rightarrow> byte list \<Rightarrow> byte list" where
  "set_uid strtol16 arg uidbcc =
     foldl (\<lambda>buf i.
              let buf1 = buf[i := (word_of_int (strtol16 (take 2 (drop (i * 2) arg))) :: byte)]
              in buf1[4 := buf1 ! 4 XOR buf1 ! i])
       (uidbcc[4 := 0x00]) [0..<4]"

text \<open>
  The option loop of \<open>main\<close> over \<^verbatim>\<open>argv[1]\<close> ... \<^verbatim>\<open>argv[argc - 1]\<close>. An argument is the
  last one exactly when no argument follows it.
\<close>

fun main_options :: "(string \<Rightarrow> int) \<Rightarrow> string list \<Rightarrow> emulator \<Rightarrow> exit_code + emulator" where
  "main_options strtol16 [] st = Inr st"
| "main_options strtol16 (arg # rest) st =
     (if arg = ''-h'' then Inl EXIT_SUCCESS
      else if arg = ''-q'' then main_options strtol16 rest (st\<lparr>quiet_output := True\<rparr>)
      else if rest = [] \<and> length arg = 8
      then main_options strtol16 rest (st\<lparr>abtUidBcc := set_uid strtol16 arg (abtUidBcc st)\<rparr>)
      else Inl EXIT_FAILURE)"

text \<open>
  Between the option loop and the \<^verbatim>\<open>while\<close> loop the program connects to the device,
  leaves its automatic emulation and configures it, and exits if one of these fails; the
  calls store into \<open>abtRecv\<close> and \<open>szRecvBits\<close> only, none of the variables above.

  One pass through the body of \<^verbatim>\<open>while (true)\<close>. The transport is outside the program:
  \<open>rx\<close> is \<open>None\<close> when \<^verbatim>\<open>nfc_target_receive_bits\<close> returned false and otherwise the
  received bytes with their bit count, \<open>send_ok\<close> is what \<^verbatim>\<open>nfc_target_send_bits\<close>
  returns if it is called. The pass yields the variables afterwards, the buffer and bit
  count handed to \<^verbatim>\<open>nfc_target_send_bits\<close> (if it was called), the console trace and
  the exit code if the program exits. Dereferencing a null \<open>pbtTx\<close> would be \<open>None\<close>.

  The console trace lists the calls that write to the console, in order:
  \<^verbatim>\<open>printf ("\\n")\<close>, the line \<^verbatim>\<open>R:\<close> with the received frame, the line \<^verbatim>\<open>T:\<close> with the
  sent frame, and the message of \<^verbatim>\<open>nfc_perror\<close> with its prefix, which is written whether
  or not the output is quiet.
\<close>

datatype console =
  Blank_line | Received "byte list" nat | Transmitted "byte list" nat | Perror string

record pass =
  vars :: emulator
  send_bits :: "(byte list \<times> nat) option"
  printed :: "console list"
  exited :: "exit_code option"

definition pointee :: "emulator \<Rightarrow> tx_pointer \<Rightarrow> byte list option" where
  "pointee st ptr =
     (case ptr of
        NULL \<Rightarrow> None
      | Ptr_abtAtqa \<Rightarrow> Some (abtAtqa st)
      | Ptr_abtUidBcc \<Rightarrow> Some (abtUidBcc st)
      | Ptr_abtSak \<Rightarrow> Some (abtSak st))"

definition main_loop_body ::
  "emulator \<Rightarrow> (byte list \<times> nat) option \<Rightarrow> bool \<Rightarrow> pass option" where
  "main_loop_body st rx send_ok =
     (case rx of
        None \<Rightarrow> Some \<lparr>vars = st, send_bits = None, printed = [], exited = None\<rparr>
      | Some (abtRecv, szRecvBits) \<Rightarrow>
          let st1 = (if szRecvBits = 7 then st\<lparr>pbtTx := Ptr_abtAtqa, szTxBits := 16\<rparr>
                     else if szRecvBits = 16 then st\<lparr>pbtTx := Ptr_abtUidBcc, szTxBits := 40\<rparr>
                     else if szRecvBits = 72 then st\<lparr>pbtTx := Ptr_abtSak, szTxBits := 24\<rparr>
                     else st\<lparr>szTxBits := 0\<rparr>);
              out1 = (if szRecvBits = 7 \<and> \<not> quiet_output st then [Blank_line] else [])
                     @ (if \<not> quiet_output st then [Received abtRecv szRecvBits] else [])
          in if szTxBits st1 \<noteq> 0 then
               (case pointee st1 (pbtTx st1) of
                  None \<Rightarrow> None
                | Some buf \<Rightarrow>
                    if \<not> send_ok
                    then Some \<lparr>vars = st1, send_bits = Some (buf, szTxBits st1),
                           printed = out1 @ [Perror ''nfc_target_send_bits''],
                           exited = Some EXIT_FAILURE\<rparr>
                    else Some \<lparr>vars = st1, send_bits = Some (buf, szTxBits st1),
                           printed = out1 @ (if \<not> quiet_output st
                                             then [Transmitted buf (szTxBits st1)] else []),
                           exited = None\<rparr>)
             else Some \<lparr>vars = st1, send_bits = None, printed = out1, exited = None\<rparr>)"

text \<open>
  The loop over a finite run of transport events (what was received, and whether a send
  succeeds). It returns the variables at the end of the run and the frames handed to
  the transport, in order; it stops early when the program exits.
\<close>

fun main_loop ::
  "emulator \<Rightarrow> ((byte list \<times> nat) option \<times> bool) list
     \<Rightarrow> (emulator \<times> (byte list \<times> nat) option list \<times> exit_code option) option" where
  "main_loop st [] = Some (st, [], None)"
| "main_loop st ((rx, send_ok) # events) =
     (case main_loop_body st rx send_ok of
        None \<Rightarrow> None
      | Some r \<Rightarrow>
          (case exited r of
             Some code \<Rightarrow> Some (vars r, [send_bits r], Some code)
           | None \<Rightarrow>
               (case main_loop (vars r) events of
                  None \<Rightarrow> None
                | Some (st', frames, code) \<Rightarrow> Some (st', send_bits r # frames, code))))"

text \<open>
  The variables the program can have at the top of the loop when it entered the loop
  with \<open>st0\<close>: \<open>st0\<close> itself, and what a pass that does not exit leaves behind.
\<close>

inductive running :: "emulator \<Rightarrow> emulator \<Rightarrow> bool" for st0 :: emulator where
  entered: "running st0 st0"
| passed: "running st0 st \<Longrightarrow> main_loop_body st rx send_ok = Some r \<Longrightarrow> exited r = None
     \<Longrightarrow> running st0 (vars r)"

section \<open>Reference notions\<close>

text \<open>The population count of a byte: the number of its eight bits that are set.\<close>

definition popcount :: "byte \<Rightarrow> nat" where
  "popcount b = length (filter (bit b) [0..<8])"

text \<open>
  The bytes of a frame given as a buffer and a bit count: the bytes the bits lie in.
\<close>

definition frame_bytes :: "byte list \<times> nat \<Rightarrow> byte list" where
  "frame_bytes f = take ((snd f + 7) div 8) (fst f)"

text \<open>
  The ISO/IEC 14443-3 type A checksum as the standard words it: a 16-bit shift register
  starting at \<open>0x6363\<close>; each byte is combined with the low end of the register, which is
  then shifted right eight times, the reflected polynomial \<open>0x8408\<close> being added whenever
  a one is shifted out.
\<close>

definition crc_a_shift :: "16 word \<Rightarrow> 16 word" where
  "crc_a_shift c = (if bit c 0 then drop_bit 1 c XOR 0x8408 else drop_bit 1 c)"

definition crc_a_byte :: "16 word \<Rightarrow> byte \<Rightarrow> 16 word" where
  "crc_a_byte c b = (crc_a_shift ^^ 8) (c XOR ucast b)"

definition crc_a :: "byte list \<Rightarrow> 16 word" where
  "crc_a bs = foldl crc_a_byte 0x6363 bs"

text \<open>
  The checksum in transmit order: low byte, then high byte.
\<close>

definition crc_a_bytes :: "byte list \<Rightarrow> byte list" where
  "crc_a_bytes bs = [ucast (crc_a bs), ucast (drop_bit 8 (crc_a bs))]"

text \<open>
  Eight shifts of the register at once, for a register whose high byte is zero and whose
  low byte is \<open>l\<close>: the closed form that byte-wise implementations use.
\<close>

definition crc_fold :: "byte \<Rightarrow> 16 word" where
  "crc_fold l =
     (let t = l XOR push_bit 4 l
      in push_bit 8 (ucast t) XOR push_bit 3 (ucast t) XOR drop_bit 4 (ucast t))"

text \<open>
  How often the body of a \<^verbatim>\<open>do { ... } while (--uiLen)\<close> loop runs when nothing stops it:
  once, and once more for every value the counter passes before it reaches zero.
\<close>

definition iterations :: "ui32 \<Rightarrow> nat" where
  "iterations uiLen = Suc (unat (uiLen - 1))"

text \<open>
  Reading the dump: every whole byte takes four characters, two digits and a two
  character mark; the byte at position \<open>i\<close> is flagged when its mark is \<^verbatim>\<open>"! "\<close>.
\<close>

definition flagged :: "string \<Rightarrow> nat \<Rightarrow> bool" where
  "flagged out i = (take 2 (drop (4 * i + 2) out) = ''! '')"

text \<open>
  The four characters the dump prints for the whole byte at position \<open>i\<close>.
\<close>

definition cell :: "byte list \<Rightarrow> byte list \<Rightarrow> nat \<Rightarrow> string" where
  "cell pbtData pbtDataPar i =
     hex02 (pbtData ! i)
     @ (if OddParity ! unat (pbtData ! i) \<noteq> pbtDataPar ! i then ''! '' else ''  '')"

text \<open>
  The UID the program is asked to emulate: the four bytes written as eight hexadecimal
  digits in the last argument, or \<open>DE AD BE AF\<close> when no UID is given. The block check
  character of a UID is the exclusive or of its four bytes.
\<close>

definition configured_uid :: "(string \<Rightarrow> int) \<Rightarrow> string list \<Rightarrow> byte list" where
  "configured_uid strtol16 args =
     (if args \<noteq> [] \<and> length (last args) = 8
      then map (\<lambda>i. word_of_int (strtol16 (take 2 (drop (2 * i) (last args))))) [0..<4]
      else [0xDE, 0xAD, 0xBE, 0xAF])"

definition bcc :: "byte list \<Rightarrow> byte" where
  "bcc uid = uid ! 0 XOR uid ! 1 XOR uid ! 2 XOR uid ! 3"

text \<open>
  What a pass writes to the console, told from outside: nothing when no frame was
  received; otherwise, unless the output is quiet, the received frame (after a blank line
  when it has 7 bits), and then for a frame handed to the transport either the sent frame
  (unless the output is quiet) when the send succeeded, or the error message when it
  failed.
\<close>

definition trace ::
  "bool \<Rightarrow> (byte list \<times> nat) option \<Rightarrow> (byte list \<times> nat) option \<Rightarrow> bool \<Rightarrow> console list" where
  "trace quiet rx tx send_ok =
     (case rx of
        None \<Rightarrow> []
      | Some (abtRecv, n) \<Rightarrow>
          (if quiet then [] else (if n = 7 then [Blank_line] else []) @ [Received abtRecv n])
          @ (case tx of
               None \<Rightarrow> []
             | Some (buf, bits) \<Rightarrow>
                 if send_ok then (if quiet then [] else [Transmitted buf bits])
                 else [Perror ''nfc_target_send_bits'']))"

text \<open>
  The value of \<^verbatim>\<open>strtol(s, NULL, 16)\<close> in the C locale, as long as it fits a \<^verbatim>\<open>long\<close> (as
  it does for the two characters the program passes): leading white space is skipped, a
  sign may follow, then the prefix \<^verbatim>\<open>0x\<close> or \<^verbatim>\<open>0X\<close> when a hexadecimal digit comes after
  it, then the digits up to the first character that is not one; without digits the
  value is 0.
\<close>

definition isspace :: "char \<Rightarrow> bool" where
  "isspace c = (let n = of_char c :: nat in n = 32 \<or> (9 \<le> n \<and> n \<le> 13))"

definition hex_value :: "char \<Rightarrow> int option" where
  "hex_value c =
     (let n = of_char c :: nat in
      if 48 \<le> n \<and> n \<le> 57 then Some (int n - 48)
      else if 97 \<le> n \<and> n \<le> 102 then Some (int n - 87)
      else if 65 \<le> n \<and> n \<le> 70 then Some (int n - 55)
      else None)"

fun hex_digits_from :: "int \<Rightarrow> string \<Rightarrow> int" where
  "hex_digits_from acc [] = acc"
| "hex_digits_from acc (c # cs) =
     (case hex_value c of None \<Rightarrow> acc | Some d \<Rightarrow> hex_digits_from (acc * 16 + d) cs)"

fun skip_0x :: "string \<Rightarrow> string" where
  "skip_0x (c0 # c1 # c2 # cs) =
     (if c0 = CHR ''0'' \<and> (c1 = CHR ''x'' \<or> c1 = CHR ''X'') \<and> hex_value c2 \<noteq> None
      then c2 # cs else c0 # c1 # c2 # cs)"
| "skip_0x cs = cs"

definition hex_digits :: "string \<Rightarrow> int" where
  "hex_digits s =
     (case dropWhile isspace s of
        [] \<Rightarrow> 0
      | c # cs \<Rightarrow>
          if c = CHR ''-'' then - hex_digits_from 0 (skip_0x cs)
          else if c = CHR ''+'' then hex_digits_from 0 (skip_0x cs)
          else hex_digits_from 0 (skip_0x (c # cs)))"

section \<open>Properties\<close>

subsection \<open>Odd parity\<close>

text \<open>
  Claim C5. For each of the 256 byte values \<open>b\<close>, \<open>oddparity b\<close> is 1 exactly when the
  population count of \<open>b\<close> is even and 0 otherwise, so the number of ones in the byte
  together with its parity bit is odd.
\<close>

theorem oddparity_popcount:
  "\<forall>b :: byte. oddparity b = (if even (popcount b) then 1 else 0)
     \<and> (oddparity b = 1 \<longleftrightarrow> even (popcount b))
     \<and> odd (popcount b + unat (oddparity b))"
  by code_simp

subsection \<open>Bit mirroring\<close>

lemma unat_succ_below: "(k :: ui32) < n \<Longrightarrow> unat (k + 1) = Suc (unat k)"
proof -
  assume "k < n"
  then have "unat k < unat n"
    by (simp add: word_less_nat_alt)
  moreover have "unat n < 2 ^ 32"
    using unsigned_less [of n] by simp
  ultimately have "unat k + 1 < 2 ^ 32"
    by simp
  then show ?thesis
    by (simp add: unat_word_ariths)
qed

lemma mirror_mirror: "\<forall>b :: byte. mirror (mirror b) = b"
  by code_simp

text \<open>
  With a length that fits the buffer the loop finishes, keeps the size of the buffer,
  mirrors the bytes from \<open>btNr\<close> up to \<open>uiLen\<close> and leaves the others alone.
\<close>

lemma mirror_bytes_loop_nth:
  "unat uiLen \<le> length pbts \<Longrightarrow>
   \<exists>r. mirror_bytes_loop pbts btNr uiLen = Some r \<and> length r = length pbts \<and>
     (\<forall>i < length pbts. r ! i =
        (if unat btNr \<le> i \<and> i < unat uiLen then mirror (pbts ! i) else pbts ! i))"
proof (induction pbts btNr uiLen rule: mirror_bytes_loop.induct)
  case (1 pbts btNr uiLen)
  show ?case
  proof (cases "btNr < uiLen")
    case False
    then have "unat uiLen \<le> unat btNr"
      by (simp add: word_less_nat_alt)
    with False show ?thesis
      by (subst mirror_bytes_loop.simps) auto
  next
    case True
    then have lt: "unat btNr < unat uiLen"
      by (simp add: word_less_nat_alt)
    with "1.prems" have inb: "unat btNr < length pbts"
      by simp
    let ?pbts = "pbts[unat btNr := ByteMirror ! unat (pbts ! unat btNr)]"
    from "1.prems" have "unat uiLen \<le> length ?pbts"
      by simp
    from "1.IH" [OF True inb this]
    obtain r where r: "mirror_bytes_loop ?pbts (btNr + 1) uiLen = Some r"
      and len: "length r = length ?pbts"
      and nth: "\<forall>i < length ?pbts. r ! i =
          (if unat (btNr + 1) \<le> i \<and> i < unat uiLen then mirror (?pbts ! i) else ?pbts ! i)"
      by blast
    have step: "mirror_bytes_loop pbts btNr uiLen = Some r"
      using True inb r by (subst mirror_bytes_loop.simps) simp
    have "r ! i = (if unat btNr \<le> i \<and> i < unat uiLen then mirror (pbts ! i) else pbts ! i)"
      if "i < length pbts" for i
    proof (cases "i = unat btNr")
      case True
      with nth that lt show ?thesis
        by (simp add: unat_succ_below [OF \<open>btNr < uiLen\<close>] mirror_def)
    next
      case False
      with nth that show ?thesis
        by (auto simp: unat_succ_below [OF \<open>btNr < uiLen\<close>])
    qed
    with step len show ?thesis
      by simp
  qed
qed

lemma mirror_bytes_nth:
  assumes "unat uiLen \<le> length pbts"
  shows "\<exists>r. mirror_bytes pbts uiLen = Some r \<and> length r = length pbts \<and>
     (\<forall>i < length pbts. r ! i = (if i < unat uiLen then mirror (pbts ! i) else pbts ! i))"
  using mirror_bytes_loop_nth [OF assms, of 0] by (simp add: mirror_bytes_def)

text \<open>
  Claim C6. Mirroring is an involution: \<open>mirror (mirror b) = b\<close> for each of the 256
  byte values, and \<open>mirror_bytes\<close> applied twice (with a length that fits the buffer)
  gives the buffer back.
\<close>

theorem mirror_involution:
  "(\<forall>b :: byte. mirror (mirror b) = b) \<and>
   (\<forall>pbts uiLen. unat uiLen \<le> length pbts \<longrightarrow>
      (\<exists>r. mirror_bytes pbts uiLen = Some r \<and> mirror_bytes r uiLen = Some pbts))"
proof (intro conjI allI impI)
  show "mirror (mirror b) = b" for b
    using mirror_mirror by blast
next
  fix pbts :: "byte list" and uiLen :: ui32
  assume le: "unat uiLen \<le> length pbts"
  from mirror_bytes_nth [OF le] obtain r where r: "mirror_bytes pbts uiLen = Some r"
    and len: "length r = length pbts"
    and nth: "\<forall>i < length pbts. r ! i = (if i < unat uiLen then mirror (pbts ! i) else pbts ! i)"
    by blast
  from le len have "unat uiLen \<le> length r"
    by simp
  from mirror_bytes_nth [OF this] obtain r' where r': "mirror_bytes r uiLen = Some r'"
    and len': "length r' = length r"
    and nth': "\<forall>i < length r. r' ! i = (if i < unat uiLen then mirror (r ! i) else r ! i)"
    by blast
  have "r' = pbts"
  proof (rule nth_equalityI)
    show "length r' = length pbts"
      using len len' by simp
  next
    fix i assume "i < length r'"
    with len len' nth nth' show "r' ! i = pbts ! i"
      using mirror_mirror by simp
  qed
  with r r' show "\<exists>r. mirror_bytes pbts uiLen = Some r \<and> mirror_bytes r uiLen = Some pbts"
    by blast
qed

theorem mirror_involution_witness:
  "unat (2 :: ui32) \<le> length [0x01, 0x80, 0x0F :: byte] \<and>
   mirror (mirror 0x2C) = 0x2C \<and>
   (\<exists>r. mirror_bytes [0x01, 0x80, 0x0F] 2 = Some r \<and> mirror_bytes r 2 = Some [0x01, 0x80, 0x0F])"
proof -
  have le: "unat (2 :: ui32) \<le> length [0x01, 0x80, 0x0F :: byte]"
    by simp
  from mirror_involution have "mirror (mirror 0x2C) = 0x2C"
    and "\<exists>r. mirror_bytes [0x01, 0x80, 0x0F] 2 = Some r \<and> mirror_bytes r 2 = Some [0x01, 0x80, 0x0F]"
    using le by blast+
  with le show ?thesis
    by blast
qed

subsection \<open>Byte order\<close>

lemma masks32:
  "(0xFF :: ui32) = mask 8"
  "(0xFF00 :: ui32) = push_bit 8 (mask 8)"
  "(0xFF0000 :: ui32) = push_bit 16 (mask 8)"
  "(0xFF000000 :: ui32) = push_bit 24 (mask 8)"
  by (simp_all add: mask_eq_exp_minus_1 push_bit_eq_mult)

text \<open>The four parts have no bit in common, so each addition is a bitwise or.\<close>

lemma swap_endian32_or:
  "swap_endian32 n =
     ((push_bit 24 (n AND mask 8) OR push_bit 8 (n AND push_bit 8 (mask 8)))
     OR drop_bit 8 (n AND push_bit 16 (mask 8))) OR drop_bit 24 (n AND push_bit 24 (mask 8))"
proof -
  let ?a = "push_bit 24 (n AND mask 8)"
  let ?b = "push_bit 8 (n AND push_bit 8 (mask 8))"
  let ?c = "drop_bit 8 (n AND push_bit 16 (mask 8))"
  let ?d = "drop_bit 24 (n AND push_bit 24 (mask 8))"
  have 1: "?a + ?b = ?a OR ?b"
    by (rule disjunctive_add) (auto simp: bit_simps)
  have 2: "(?a OR ?b) + ?c = (?a OR ?b) OR ?c"
    by (rule disjunctive_add) (auto simp: bit_simps)
  have 3: "((?a OR ?b) OR ?c) + ?d = ((?a OR ?b) OR ?c) OR ?d"
    by (rule disjunctive_add) (auto simp: bit_simps)
  show ?thesis
    unfolding swap_endian32_def masks32 1 2 3 ..
qed

lemma bit_swap_endian32:
  "bit (swap_endian32 n) i =
     (i < 32 \<and> (if i < 8 then bit n (i + 24) else if i < 16 then bit n (i + 8)
        else if i < 24 then bit n (i - 8) else bit n (i - 24)))"
  unfolding swap_endian32_or
  by (auto simp: bit_simps add.commute dest: bit_imp_le_length)

lemma masks64:
  "(0xFF :: ui64) = mask 8"
  "(0xFF00 :: ui64) = push_bit 8 (mask 8)"
  "(0xFF0000 :: ui64) = push_bit 16 (mask 8)"
  "(0xFF000000 :: ui64) = push_bit 24 (mask 8)"
  "(0xFF00000000 :: ui64) = push_bit 32 (mask 8)"
  "(0xFF0000000000 :: ui64) = push_bit 40 (mask 8)"
  "(0xFF000000000000 :: ui64) = push_bit 48 (mask 8)"
  "(0xFF00000000000000 :: ui64) = push_bit 56 (mask 8)"
  by (simp_all add: mask_eq_exp_minus_1 push_bit_eq_mult)

lemma swap_endian64_or:
  "swap_endian64 n =
     ((((((push_bit 56 (n AND mask 8) OR push_bit 40 (n AND push_bit 8 (mask 8)))
     OR push_bit 24 (n AND push_bit 16 (mask 8))) OR push_bit 8 (n AND push_bit 24 (mask 8)))
     OR drop_bit 8 (n AND push_bit 32 (mask 8))) OR drop_bit 24 (n AND push_bit 40 (mask 8)))
     OR drop_bit 40 (n AND push_bit 48 (mask 8))) OR drop_bit 56 (n AND push_bit 56 (mask 8))"
proof -
  let ?a = "push_bit 56 (n AND mask 8)"
  let ?b = "push_bit 40 (n AND push_bit 8 (mask 8))"
  let ?c = "push_bit 24 (n AND push_bit 16 (mask 8))"
  let ?d = "push_bit 8 (n AND push_bit 24 (mask 8))"
  let ?e = "drop_bit 8 (n AND push_bit 32 (mask 8))"
  let ?f = "drop_bit 24 (n AND push_bit 40 (mask 8))"
  let ?g = "drop_bit 40 (n AND push_bit 48 (mask 8))"
  let ?h = "drop_bit 56 (n AND push_bit 56 (mask 8))"
  have 1: "?a + ?b = ?a OR ?b"
    by (rule disjunctive_add) (auto simp: bit_simps)
  have 2: "(?a OR ?b) + ?c = (?a OR ?b) OR ?c"
    by (rule disjunctive_add) (auto simp: bit_simps)
  have 3: "((?a OR ?b) OR ?c) + ?d = ((?a OR ?b) OR ?c) OR ?d"
    by (rule disjunctive_add) (auto simp: bit_simps)
  have 4: "(((?a OR ?b) OR ?c) OR ?d) + ?e = (((?a OR ?b) OR ?c) OR ?d) OR ?e"
    by (rule disjunctive_add) (auto simp: bit_simps)
  have 5: "((((?a OR ?b) OR ?c) OR ?d) OR ?e) + ?f = ((((?a OR ?b) OR ?c) OR ?d) OR ?e) OR ?f"
    by (rule disjunctive_add) (auto simp: bit_simps)
  have 6: "(((((?a OR ?b) OR ?c) OR ?d) OR ?e) OR ?f) + ?g
      = (((((?a OR ?b) OR ?c) OR ?d) OR ?e) OR ?f) OR ?g"
    by (rule disjunctive_add) (auto simp: bit_simps)
  have 7: "((((((?a OR ?b) OR ?c) OR ?d) OR ?e) OR ?f) OR ?g) + ?h
      = ((((((?a OR ?b) OR ?c) OR ?d) OR ?e) OR ?f) OR ?g) OR ?h"
    by (rule disjunctive_add) (auto simp: bit_simps)
  show ?thesis
    unfolding swap_endian64_def masks64 1 2 3 4 5 6 7 ..
qed

lemma bit_swap_endian64:
  "bit (swap_endian64 n) i =
     (i < 64 \<and> (if i < 8 then bit n (i + 56) else if i < 16 then bit n (i + 40)
        else if i < 24 then bit n (i + 24) else if i < 32 then bit n (i + 8)
        else if i < 40 then bit n (i - 8) else if i < 48 then bit n (i - 24)
        else if i < 56 then bit n (i - 40) else bit n (i - 56)))"
  unfolding swap_endian64_or
  by (auto simp: bit_simps add.commute dest: bit_imp_le_length)

text \<open>
  Claim C7. Swapping the byte order twice gives the value back, for every 32-bit and
  every 64-bit value.
\<close>

theorem swap_endian_involution:
  "(\<forall>x. swap_endian32 (swap_endian32 x) = x) \<and> (\<forall>x. swap_endian64 (swap_endian64 x) = x)"
proof (intro conjI allI)
  show "swap_endian32 (swap_endian32 x) = x" for x
    by (rule bit_eqI) (auto simp: bit_swap_endian32 dest: bit_imp_le_length)
next
  show "swap_endian64 (swap_endian64 x) = x" for x
    by (rule bit_eqI) (auto simp: bit_swap_endian64 dest: bit_imp_le_length)
qed

subsection \<open>The checksum\<close>

text \<open>The shift step is linear over exclusive or, and so is any number of steps.\<close>

lemma crc_a_shift_xor: "crc_a_shift (x XOR y) = crc_a_shift x XOR crc_a_shift y"
  unfolding crc_a_shift_def
  by (simp add: bit_0 even_xor_iff xor.assoc xor.commute xor.left_commute)

lemma crc_a_shift_pow_xor:
  "(crc_a_shift ^^ n) (x XOR y) = (crc_a_shift ^^ n) x XOR (crc_a_shift ^^ n) y"
  by (induction n) (simp_all add: crc_a_shift_xor)

text \<open>A register whose low \<open>k\<close> bits are zero is only shifted by \<open>k\<close> steps.\<close>

lemma crc_a_shift_even: "\<not> bit x 0 \<Longrightarrow> crc_a_shift x = drop_bit 1 x"
  by (simp add: crc_a_shift_def)

lemma crc_a_shift_pow_low_zero:
  "(\<forall>i<k. \<not> bit x i) \<Longrightarrow> (crc_a_shift ^^ k) x = drop_bit k x"
proof (induction k)
  case 0
  show ?case by simp
next
  case (Suc k)
  then have "(crc_a_shift ^^ k) x = drop_bit k x"
    by simp
  moreover from Suc.prems have "\<not> bit (drop_bit k x) 0"
    by (simp add: bit_drop_bit_eq)
  ultimately show ?case
    by (simp add: crc_a_shift_even)
qed

lemma crc_a_shift8_high: "(crc_a_shift ^^ 8) (push_bit 8 (ucast (h :: byte))) = ucast h"
proof -
  have "(crc_a_shift ^^ 8) (push_bit 8 (ucast h)) = drop_bit 8 (push_bit 8 (ucast h) :: 16 word)"
    by (rule crc_a_shift_pow_low_zero) (simp add: bit_push_bit_iff)
  also have "\<dots> = ucast h"
    by (rule bit_eqI) (auto simp: bit_simps dest: bit_imp_le_length)
  finally show ?thesis .
qed

text \<open>
  For the low byte, both sides are linear, a byte is the exclusive or of its bits, and the
  two sides agree on each single bit.
\<close>

lemma shift8_basis:
  "\<forall>x \<in> set [0, 1, 2, 4, 8, 16, 32, 64, 128 :: byte].
     (crc_a_shift ^^ 8) (ucast x) = crc_fold x"
  by code_simp

lemma and_exp_cases: "(l :: byte) AND 2 ^ i = (if bit l i then 2 ^ i else 0)"
  by (rule bit_eqI) (auto simp: bit_simps)

lemma shift8_bit:
  "i < 8 \<Longrightarrow> (crc_a_shift ^^ 8) (ucast ((l :: byte) AND 2 ^ i)) = crc_fold (l AND 2 ^ i)"
proof -
  assume "i < 8"
  then have "i \<in> {0, 1, 2, 3, 4, 5, 6, 7}"
    by auto
  then have "(2 ^ i :: byte) \<in> set [0, 1, 2, 4, 8, 16, 32, 64, 128 :: byte]"
    by auto
  then have "(crc_a_shift ^^ 8) (ucast (2 ^ i :: byte)) = crc_fold (2 ^ i)"
    using shift8_basis by blast
  moreover have "(crc_a_shift ^^ 8) (ucast (0 :: byte)) = crc_fold 0"
    using shift8_basis by simp
  ultimately show ?thesis
    by (cases "bit l i") (simp_all only: and_exp_cases if_True if_False)
qed

lemma byte_split:
  "(l :: byte) = (l AND 2 ^ 0) XOR (l AND 2 ^ 1) XOR (l AND 2 ^ 2) XOR (l AND 2 ^ 3)
     XOR (l AND 2 ^ 4) XOR (l AND 2 ^ 5) XOR (l AND 2 ^ 6) XOR (l AND 2 ^ 7)"
proof (rule bit_eqI)
  fix n
  show "bit l n = bit ((l AND 2 ^ 0) XOR (l AND 2 ^ 1) XOR (l AND 2 ^ 2) XOR (l AND 2 ^ 3)
     XOR (l AND 2 ^ 4) XOR (l AND 2 ^ 5) XOR (l AND 2 ^ 6) XOR (l AND 2 ^ 7)) n"
    by (simp only: bit_xor_iff bit_and_iff bit_exp_iff) (auto dest: bit_imp_le_length)
qed

lemma crc_fold_xor: "crc_fold (x XOR y) = crc_fold x XOR crc_fold y"
  unfolding crc_fold_def Let_def
  by (simp add: unsigned_xor_eq xor.assoc xor.commute xor.left_commute)

lemma crc_a_shift8_low: "(crc_a_shift ^^ 8) (ucast (l :: byte)) = crc_fold l"
proof -
  let ?F = "\<lambda>x :: byte. (crc_a_shift ^^ 8) (ucast x)"
  have F: "?F (x XOR y) = ?F x XOR ?F y" for x y
    by (simp only: unsigned_xor_eq crc_a_shift_pow_xor)
  have B: "?F (l AND 2 ^ i) = crc_fold (l AND 2 ^ i)" if "i < 8" for i
    using that by (rule shift8_bit)
  have "?F l = ?F ((l AND 2 ^ 0) XOR (l AND 2 ^ 1) XOR (l AND 2 ^ 2) XOR (l AND 2 ^ 3)
     XOR (l AND 2 ^ 4) XOR (l AND 2 ^ 5) XOR (l AND 2 ^ 6) XOR (l AND 2 ^ 7))"
    by (rule arg_cong [OF byte_split])
  also have "\<dots> = crc_fold ((l AND 2 ^ 0) XOR (l AND 2 ^ 1) XOR (l AND 2 ^ 2) XOR (l AND 2 ^ 3)
     XOR (l AND 2 ^ 4) XOR (l AND 2 ^ 5) XOR (l AND 2 ^ 6) XOR (l AND 2 ^ 7))"
    by (simp only: F crc_fold_xor
        B [of 0] B [of 1] B [of 2] B [of 3] B [of 4] B [of 5] B [of 6] B [of 7])
  also have "\<dots> = crc_fold l"
    by (rule arg_cong [OF byte_split [symmetric]])
  finally show ?thesis .
qed

text \<open>One byte of the reference checksum, in closed form.\<close>

lemma split16:
  "(c :: 16 word) XOR ucast (b :: byte)
     = push_bit 8 (ucast (ucast (drop_bit 8 c) :: byte)) XOR ucast ((ucast c :: byte) XOR b)"
  by (rule bit_eqI) (auto simp: bit_simps)

lemma high16: "(ucast (ucast (drop_bit 8 (c :: 16 word)) :: byte) :: 16 word) = drop_bit 8 c"
  by (rule bit_eqI) (auto simp: bit_simps dest: bit_imp_le_length)

lemma crc_a_byte_eq: "crc_a_byte c b = drop_bit 8 c XOR crc_fold (ucast c XOR b)"
proof -
  have "crc_a_byte c b
      = (crc_a_shift ^^ 8) (push_bit 8 (ucast (ucast (drop_bit 8 c) :: byte))
          XOR ucast ((ucast c :: byte) XOR b))"
    unfolding crc_a_byte_def by (rule arg_cong [OF split16])
  also have "\<dots> = ucast (ucast (drop_bit 8 c) :: byte) XOR crc_fold (ucast c XOR b)"
    by (simp only: crc_a_shift_pow_xor crc_a_shift8_high crc_a_shift8_low)
  finally show ?thesis
    by (simp only: high16)
qed

text \<open>The loop body of the source, on a register that fits sixteen bits.\<close>

lemma low32: "(ucast ((ucast (c :: 16 word) :: ui32) AND 0x00FF) :: byte) = ucast c"
proof -
  have m: "(0x00FF :: ui32) = mask 8"
    by (simp add: mask_eq_exp_minus_1)
  show ?thesis
    unfolding m by (rule bit_eqI) (auto simp: bit_simps)
qed

lemma high32: "drop_bit 8 (ucast (c :: 16 word) :: ui32) = ucast (drop_bit 8 c)"
  by (rule bit_eqI) (auto simp: bit_simps dest: bit_imp_le_length)

lemma ucast_xor32: "(ucast ((x :: 16 word) XOR y) :: ui32) = ucast x XOR ucast y"
  by (rule bit_eqI) (auto simp: bit_simps)

lemma promoted_xor:
  "(ucast ((ucast (t :: byte) :: ui32) XOR push_bit 4 (ucast t :: ui32)) :: byte) = t XOR push_bit 4 t"
  by (rule bit_eqI) (auto simp: bit_simps)

lemma fold32:
  "push_bit 8 (ucast (u :: byte) :: ui32) XOR push_bit 3 (ucast u :: ui32) XOR drop_bit 4 (ucast u :: ui32)
     = ucast (push_bit 8 (ucast u :: 16 word) XOR push_bit 3 (ucast u) XOR drop_bit 4 (ucast u))"
proof -
  have "push_bit 8 (ucast u :: ui32) = ucast (push_bit 8 (ucast u :: 16 word))"
    by (rule bit_eqI) (auto simp: bit_simps dest: bit_imp_le_length)
  moreover have "push_bit 3 (ucast u :: ui32) = ucast (push_bit 3 (ucast u :: 16 word))"
    by (rule bit_eqI) (auto simp: bit_simps dest: bit_imp_le_length)
  moreover have "drop_bit 4 (ucast u :: ui32) = ucast (drop_bit 4 (ucast u :: 16 word))"
    by (rule bit_eqI) (auto simp: bit_simps dest: bit_imp_le_length)
  ultimately show ?thesis
    by (simp only: unsigned_xor_eq)
qed

lemma crc_body_refines: "crc_body (ucast c) b = ucast (crc_a_byte c b)"
proof -
  have "crc_body (ucast c) b
      = drop_bit 8 (ucast c)
        XOR (push_bit 8 (ucast ((b XOR ucast c) XOR push_bit 4 (b XOR ucast c)) :: ui32)
         XOR push_bit 3 (ucast ((b XOR ucast c) XOR push_bit 4 (b XOR ucast c)) :: ui32)
         XOR drop_bit 4 (ucast ((b XOR ucast c) XOR push_bit 4 (b XOR ucast c)) :: ui32))"
    unfolding crc_body_def low32 Let_def promoted_xor ..
  also have "\<dots> = drop_bit 8 (ucast c) XOR ucast (crc_fold (b XOR ucast c))"
    unfolding crc_fold_def Let_def by (simp only: fold32)
  also have "\<dots> = ucast (crc_a_byte c b)"
    by (simp only: crc_a_byte_eq ucast_xor32 high32 xor.commute [of b])
  finally show ?thesis .
qed

text \<open>The number of passes through the loop, and how it changes with the counter.\<close>

lemma iterations_eq: "iterations uiLen = (if uiLen = 0 then 2 ^ 32 else unat uiLen)"
proof (cases "uiLen = 0")
  case True
  then show ?thesis
    by (simp add: iterations_def unsigned_minus_1_eq_mask mask_eq_exp_minus_1)
next
  case False
  then have "unat (uiLen - 1) = unat uiLen - 1" and "0 < unat uiLen"
    by (simp_all add: unat_minus_one unat_gt_0)
  with False show ?thesis
    by (simp add: iterations_def)
qed

lemma iterations_last: "uiLen - 1 = 0 \<Longrightarrow> iterations uiLen = 1"
  by (simp add: iterations_def)

lemma iterations_more: "uiLen - 1 \<noteq> 0 \<Longrightarrow> iterations uiLen = Suc (iterations (uiLen - 1))"
  by (simp add: iterations_def [of uiLen] iterations_eq [of "uiLen - 1"])

text \<open>
  The loop on a register that fits sixteen bits: when the memory object holds as many
  bytes as there are passes, it ends behind them with the reference checksum of these
  bytes; when it does not, the loop reads beyond the object.
\<close>

lemma crc_loop_run:
  "wCrc = ucast c \<Longrightarrow> p + iterations uiLen \<le> length mem \<Longrightarrow>
   crc_loop mem p wCrc uiLen
     = Some (p + iterations uiLen,
             ucast (foldl crc_a_byte c (take (iterations uiLen) (drop p mem))))"
proof (induction mem p wCrc uiLen arbitrary: c rule: crc_loop.induct)
  case (1 mem p wCrc uiLen)
  from "1.prems" have inb: "p < length mem"
    by (simp add: iterations_def)
  then have cons: "drop p mem = mem ! p # drop (Suc p) mem"
    by (simp add: Cons_nth_drop_Suc)
  have body: "crc_body wCrc (mem ! p) = ucast (crc_a_byte c (mem ! p))"
    using "1.prems"(1) by (simp only: crc_body_refines)
  show ?case
  proof (cases "uiLen - 1 = 0")
    case True
    then have "iterations uiLen = 1"
      by (rule iterations_last)
    with True inb body cons show ?thesis
      by (subst crc_loop.simps) (simp add: Let_def)
  next
    case False
    then have it: "iterations uiLen = Suc (iterations (uiLen - 1))"
      by (rule iterations_more)
    with "1.prems" have "Suc p + iterations (uiLen - 1) \<le> length mem"
      by simp
    from "1.IH" [OF inb refl refl False body this]
    have "crc_loop mem (Suc p) (crc_body wCrc (mem ! p)) (uiLen - 1)
        = Some (Suc p + iterations (uiLen - 1),
                ucast (foldl crc_a_byte (crc_a_byte c (mem ! p))
                  (take (iterations (uiLen - 1)) (drop (Suc p) mem))))" .
    with False inb it cons show ?thesis
      by (subst crc_loop.simps) (simp add: Let_def)
  qed
qed

lemma crc_loop_short:
  "length mem < p + iterations uiLen \<Longrightarrow> crc_loop mem p wCrc uiLen = None"
proof (induction mem p wCrc uiLen rule: crc_loop.induct)
  case (1 mem p wCrc uiLen)
  show ?case
  proof (cases "p < length mem")
    case False
    then show ?thesis
      by (subst crc_loop.simps) simp
  next
    case inb: True
    show ?thesis
    proof (cases "uiLen - 1 = 0")
      case True
      then have "iterations uiLen = 1"
        by (rule iterations_last)
      with "1.prems" inb show ?thesis
        by simp
    next
      case False
      then have "iterations uiLen = Suc (iterations (uiLen - 1))"
        by (rule iterations_more)
      with "1.prems" have "length mem < Suc p + iterations (uiLen - 1)"
        by simp
      from "1.IH" [OF inb refl refl False this] False inb show ?thesis
        by (subst crc_loop.simps) (simp add: Let_def)
    qed
  qed
qed

lemma crc_loop_start:
  "crc_loop mem 0 0x6363 uiLen
     = (if iterations uiLen \<le> length mem
        then Some (iterations uiLen, ucast (crc_a (take (iterations uiLen) mem)))
        else None)"
proof (cases "iterations uiLen \<le> length mem")
  case True
  have "(0x6363 :: ui32) = ucast (0x6363 :: 16 word)"
    by simp
  from crc_loop_run [OF this, of 0 uiLen mem] True show ?thesis
    by (simp add: crc_a_def)
next
  case False
  then have "length mem < 0 + iterations uiLen"
    by simp
  from crc_loop_short [OF this] False show ?thesis
    by simp
qed

text \<open>The two bytes stored after the loop are the reference checksum in transmit order.\<close>

lemma stored_low: "(ucast ((ucast (c :: 16 word) :: ui32) AND 0xFF) :: byte) = ucast c"
  using low32 by simp

lemma stored_high: "(ucast (drop_bit 8 (ucast (c :: 16 word) :: ui32) AND 0xFF) :: byte) = ucast (drop_bit 8 c)"
proof -
  have m: "(0xFF :: ui32) = mask 8"
    by (simp add: mask_eq_exp_minus_1)
  show ?thesis
    unfolding m by (rule bit_eqI) (auto simp: bit_simps)
qed

lemma store_two:
  "n + 2 \<le> length mem \<Longrightarrow> mem[n := x, Suc n := y] = take n mem @ [x, y] @ drop (n + 2) mem"
proof -
  assume len: "n + 2 \<le> length mem"
  then have "mem[n := x] = take n mem @ x # drop (Suc n) mem"
    by (simp add: upd_conv_take_nth_drop)
  moreover from len have "(take n mem @ x # drop (Suc n) mem)[Suc n := y]
      = take n mem @ x # (drop (Suc n) mem)[0 := y]"
    by (simp add: list_update_append)
  moreover from len have "(drop (Suc n) mem)[0 := y] = y # drop (n + 2) mem"
    by (simp add: upd_conv_take_nth_drop)
  ultimately show ?thesis
    by simp
qed

lemma append_iso14443a_crc_eq:
  "append_iso14443a_crc mem uiLen
     = (if iterations uiLen + 2 \<le> length mem
        then Some (take (iterations uiLen) mem @ crc_a_bytes (take (iterations uiLen) mem)
                   @ drop (iterations uiLen + 2) mem)
        else None)"
proof (cases "iterations uiLen + 2 \<le> length mem")
  case True
  then show ?thesis
    unfolding append_iso14443a_crc_def crc_loop_start
    by (simp add: stored_low stored_high store_two crc_a_bytes_def)
next
  case False
  then show ?thesis
    unfolding append_iso14443a_crc_def crc_loop_start
    by auto
qed

text \<open>
  The reference checksum on the check string of the CRC catalogue, and on the HLTA
  command \<open>50 00\<close>, whose checksum bytes are \<open>57 CD\<close>.
\<close>

lemma crc_a_check_value:
  "crc_a [0x31, 0x32, 0x33, 0x34, 0x35, 0x36, 0x37, 0x38, 0x39] = 0xBF05"
  by (simp add: crc_a_def crc_a_byte_eq crc_fold_def)

lemma crc_a_bytes_hlta: "crc_a_bytes [0x50, 0x00] = [0x57, 0xCD]"
  by (simp add: crc_a_bytes_def crc_a_def crc_a_byte_eq crc_fold_def)

text \<open>
  Claim C2, amended. For every length \<open>uiLen\<close> of at least one, \<open>append_iso14443a_crc\<close>
  computes the ISO 14443-A checksum (reflected polynomial \<open>0x8408\<close>, initial value
  \<open>0x6363\<close>) of the \<open>uiLen\<close> bytes at \<open>pbtData\<close> and stores its low byte and then its
  high byte right behind them, leaving the rest of the memory as it was; the bytes and
  the checksum lie inside the memory object.
\<close>

theorem append_iso14443a_crc_crc_a:
  "uiLen \<noteq> 0 \<Longrightarrow> unat uiLen + 2 \<le> length mem \<Longrightarrow>
   append_iso14443a_crc mem uiLen
     = Some (take (unat uiLen) mem @ crc_a_bytes (take (unat uiLen) mem)
             @ drop (unat uiLen + 2) mem)"
  by (simp add: append_iso14443a_crc_eq iterations_eq)

theorem append_iso14443a_crc_crc_a_witness:
  "(2 :: ui32) \<noteq> 0 \<and> unat (2 :: ui32) + 2 \<le> length [0x50, 0x00, 0xAA, 0xBB, 0xCC :: byte] \<and>
   append_iso14443a_crc [0x50, 0x00, 0xAA, 0xBB, 0xCC] 2 = Some [0x50, 0x00, 0x57, 0xCD, 0xCC]"
proof -
  have nz: "(2 :: ui32) \<noteq> 0"
    by simp
  have fits: "unat (2 :: ui32) + 2 \<le> length [0x50, 0x00, 0xAA, 0xBB, 0xCC :: byte]"
    by simp
  from append_iso14443a_crc_crc_a [OF nz fits]
  have "append_iso14443a_crc [0x50, 0x00, 0xAA, 0xBB, 0xCC] 2
      = Some ([0x50, 0x00] @ crc_a_bytes [0x50, 0x00] @ [0xCC])"
    by simp
  with nz fits show ?thesis
    by (simp add: crc_a_bytes_hlta)
qed

text \<open>
  Claim C2 as first stated, for every byte range, fails for the empty one: with room for
  the two checksum bytes \<open>63 63\<close> of no data, the function reads beyond the memory object
  instead of storing them.
\<close>

theorem append_iso14443a_crc_empty_counterexample:
  "unat (0 :: ui32) + 2 \<le> length [0xAA, 0xBB :: byte] \<and>
   take (unat (0 :: ui32)) [0xAA, 0xBB :: byte] @ crc_a_bytes (take (unat (0 :: ui32)) [0xAA, 0xBB])
     @ drop (unat (0 :: ui32) + 2) [0xAA, 0xBB] = [0x63, 0x63] \<and>
   append_iso14443a_crc [0xAA, 0xBB] 0 = None"
  by (simp add: append_iso14443a_crc_eq iterations_eq crc_a_bytes_def crc_a_def)

text \<open>
  Claim C10. The loop of \<open>append_iso14443a_crc\<close> always ends. For a length of at least
  one it consumes exactly \<open>uiLen\<close> bytes. Whatever the length, a run that ends has
  consumed at least one byte; for length zero it consumes \<open>2 ^ 32\<close> bytes, and reads
  beyond every memory object smaller than that. So it consumes exactly the given range
  only when \<open>uiLen\<close> is at least one.
\<close>

theorem crc_loop_consumes:
  "(uiLen \<noteq> 0 \<and> unat uiLen \<le> length mem \<longrightarrow>
      crc_loop mem 0 0x6363 uiLen = Some (unat uiLen, ucast (crc_a (take (unat uiLen) mem))))
   \<and> (crc_loop mem 0 0x6363 uiLen = Some (n, w) \<longrightarrow>
        1 \<le> n \<and> n = (if uiLen = 0 then 2 ^ 32 else unat uiLen))
   \<and> (length mem < 2 ^ 32 \<longrightarrow> crc_loop mem 0 0x6363 0 = None)"
proof (intro conjI impI)
  assume "uiLen \<noteq> 0 \<and> unat uiLen \<le> length mem"
  then show "crc_loop mem 0 0x6363 uiLen
      = Some (unat uiLen, ucast (crc_a (take (unat uiLen) mem)))"
    by (simp add: crc_loop_start iterations_eq)
next
  assume ends: "crc_loop mem 0 0x6363 uiLen = Some (n, w)"
  then have "n = iterations uiLen"
    by (simp add: crc_loop_start split: if_splits)
  then show "1 \<le> n" and "n = (if uiLen = 0 then 2 ^ 32 else unat uiLen)"
    by (simp_all add: iterations_eq unat_gt_0 Suc_le_eq)
next
  assume "length mem < 2 ^ 32"
  then show "crc_loop mem 0 0x6363 0 = None"
    by (simp add: crc_loop_start iterations_eq)
qed

theorem crc_loop_consumes_witness:
  "(2 :: ui32) \<noteq> 0 \<and> unat (2 :: ui32) \<le> length [0x50, 0x00, 0xAA :: byte]
   \<and> crc_loop [0x50, 0x00, 0xAA] 0 0x6363 2 = Some (2, 0xCD57)
   \<and> (1 :: nat) \<le> 2
   \<and> length [0x50, 0x00, 0xAA :: byte] < 2 ^ 32
   \<and> crc_loop [0x50, 0x00, 0xAA] 0 0x6363 0 = None"
proof -
  have pre: "(2 :: ui32) \<noteq> 0 \<and> unat (2 :: ui32) \<le> length [0x50, 0x00, 0xAA :: byte]"
    by simp
  have small: "length [0x50, 0x00, 0xAA :: byte] < 2 ^ 32"
    by simp
  have crc: "ucast (crc_a [0x50, 0x00]) = (0xCD57 :: ui32)"
    by (simp add: crc_a_def crc_a_byte_eq crc_fold_def)
  from crc_loop_consumes [of 2 "[0x50, 0x00, 0xAA]" 2 "0xCD57"] pre
  have run: "crc_loop [0x50, 0x00, 0xAA] 0 0x6363 2 = Some (2, 0xCD57)"
    by (simp add: crc)
  with crc_loop_consumes [of 2 "[0x50, 0x00, 0xAA]" 2 "0xCD57"] have "(1 :: nat) \<le> 2"
    by blast
  moreover from crc_loop_consumes [of 2 "[0x50, 0x00, 0xAA]" 2 "0xCD57"] small
  have "crc_loop [0x50, 0x00, 0xAA] 0 0x6363 0 = None"
    by blast
  ultimately show ?thesis
    using pre small run by blast
qed

subsection \<open>Hexadecimal dump with parity marks\<close>

lemma length_hex02: "length (hex02 b) = 2"
  by (simp add: hex02_def)

lemma length_cell: "length (cell d par i) = 4"
  by (simp add: cell_def hex02_def)

lemma length_concat_cells: "length (concat (map (cell d par) js)) = 4 * length js"
  by (induction js) (simp_all add: length_cell)

text \<open>
  With buffers that hold the whole bytes, the loop prints one cell for each of them.
\<close>

lemma print_hex_par_loop_eq:
  "unat uiBytes \<le> length d \<Longrightarrow> unat uiBytes \<le> length par \<Longrightarrow>
   print_hex_par_loop d par uiPos uiBytes out
     = Some (out @ concat (map (cell d par) [unat uiPos..<unat uiBytes]))"
proof (induction d par uiPos uiBytes out rule: print_hex_par_loop.induct)
  case (1 d par uiPos uiBytes out)
  show ?case
  proof (cases "uiPos < uiBytes")
    case False
    then have "unat uiBytes \<le> unat uiPos"
      by (simp add: word_less_nat_alt)
    with False show ?thesis
      by (subst print_hex_par_loop.simps) simp
  next
    case True
    then have lt: "unat uiPos < unat uiBytes"
      by (simp add: word_less_nat_alt)
    with "1.prems" have inb: "unat uiPos < length d \<and> unat uiPos < length par"
      by simp
    have suc: "unat (uiPos + 1) = Suc (unat uiPos)"
      using True by (rule unat_succ_below)
    from lt have upt: "[unat uiPos..<unat uiBytes] = unat uiPos # [Suc (unat uiPos)..<unat uiBytes]"
      by (simp add: upt_conv_Cons)
    have step: "print_hex_par_loop d par uiPos uiBytes out
        = print_hex_par_loop d par (uiPos + 1) uiBytes (out @ cell d par (unat uiPos))"
      using True inb by (subst print_hex_par_loop.simps) (simp add: cell_def)
    from "1.IH" [OF True inb "1.prems"]
    have "print_hex_par_loop d par (uiPos + 1) uiBytes (out @ cell d par (unat uiPos))
        = Some ((out @ cell d par (unat uiPos))
                @ concat (map (cell d par) [unat (uiPos + 1)..<unat uiBytes]))"
      unfolding cell_def [symmetric] .
    with step show ?thesis
      by (simp add: suc upt)
  qed
qed

lemma drop_cells:
  "i \<le> n \<Longrightarrow> drop (4 * i) (concat (map (cell d par) [0..<n]) @ rest)
     = concat (map (cell d par) [i..<n]) @ rest"
proof -
  assume "i \<le> n"
  then have "[0..<n] = [0..<i] @ [i..<n]"
    by (metis le_add_diff_inverse upt_add_eq_append zero_le)
  then have "concat (map (cell d par) [0..<n])
      = concat (map (cell d par) [0..<i]) @ concat (map (cell d par) [i..<n])"
    by simp
  moreover have "length (concat (map (cell d par) [0..<i])) = 4 * i"
    by (simp add: length_concat_cells)
  ultimately show ?thesis
    by simp
qed

lemma dump_at:
  assumes "i < n"
  shows "take 2 (drop (4 * i) (concat (map (cell d par) [0..<n]) @ rest)) = hex02 (d ! i)"
    and "take 2 (drop (4 * i + 2) (concat (map (cell d par) [0..<n]) @ rest))
      = (if OddParity ! unat (d ! i) \<noteq> par ! i then ''! '' else ''  '')"
proof -
  from assms have "[i..<n] = i # [Suc i..<n]"
    by (simp add: upt_conv_Cons)
  moreover from assms have "drop (4 * i) (concat (map (cell d par) [0..<n]) @ rest)
      = concat (map (cell d par) [i..<n]) @ rest"
    by (intro drop_cells) simp
  ultimately have at: "drop (4 * i) (concat (map (cell d par) [0..<n]) @ rest)
      = cell d par i @ concat (map (cell d par) [Suc i..<n]) @ rest"
    by simp
  then show "take 2 (drop (4 * i) (concat (map (cell d par) [0..<n]) @ rest)) = hex02 (d ! i)"
    by (simp add: cell_def hex02_def)
  have "drop (4 * i + 2) (concat (map (cell d par) [0..<n]) @ rest)
      = drop 2 (drop (4 * i) (concat (map (cell d par) [0..<n]) @ rest))"
    by (simp only: drop_drop add.commute [of 2])
  with at show "take 2 (drop (4 * i + 2) (concat (map (cell d par) [0..<n]) @ rest))
      = (if OddParity ! unat (d ! i) \<noteq> par ! i then ''! '' else ''  '')"
    by (simp add: cell_def hex02_def)
qed

text \<open>
  Claim C8. In the dump with parity marks, when the buffers hold the bytes the bit count
  speaks of, every whole byte is printed as its two digits and is flagged exactly when
  the parity byte supplied for it differs from \<open>oddparity\<close> of the byte; a byte whose
  parity byte equals \<open>oddparity\<close> of the byte is not flagged.
\<close>

theorem print_hex_par_marks:
  "unat (uiBits div 8) \<le> length pbtData \<Longrightarrow>
   unat (uiBits div 8) \<le> length pbtDataPar \<Longrightarrow>
   (uiBits mod 8 \<noteq> 0 \<longrightarrow> unat (uiBits div 8) < length pbtData) \<Longrightarrow>
   \<exists>out. print_hex_par pbtData uiBits pbtDataPar = Some out \<and>
     (\<forall>i < unat (uiBits div 8).
        take 2 (drop (4 * i) out) = hex02 (pbtData ! i) \<and>
        (flagged out i \<longleftrightarrow> oddparity (pbtData ! i) \<noteq> pbtDataPar ! i))"
proof -
  assume d: "unat (uiBits div 8) \<le> length pbtData"
    and par: "unat (uiBits div 8) \<le> length pbtDataPar"
    and rest: "uiBits mod 8 \<noteq> 0 \<longrightarrow> unat (uiBits div 8) < length pbtData"
  let ?n = "unat (uiBits div 8)"
  let ?cells = "concat (map (cell pbtData pbtDataPar) [0..<?n])"
  let ?rest = "(if uiBits mod 8 \<noteq> 0 then hex02 (pbtData ! ?n) else []) @ [CHR 0x0A]"
  have loop: "print_hex_par_loop pbtData pbtDataPar 0 (uiBits div 8) [] = Some ?cells"
    using print_hex_par_loop_eq [OF d par, of 0 "[]"] by simp
  have out: "print_hex_par pbtData uiBits pbtDataPar = Some (?cells @ ?rest)"
    using rest by (simp add: print_hex_par_def loop Let_def)
  have "take 2 (drop (4 * i) (?cells @ ?rest)) = hex02 (pbtData ! i) \<and>
      (flagged (?cells @ ?rest) i \<longleftrightarrow> oddparity (pbtData ! i) \<noteq> pbtDataPar ! i)"
    if "i < ?n" for i
    using dump_at [OF that, of pbtData pbtDataPar ?rest]
    by (simp add: flagged_def oddparity_def)
  with out show ?thesis
    by blast
qed

theorem print_hex_par_marks_witness:
  "unat ((27 :: ui32) div 8) \<le> length [0x00, 0x01, 0xFF, 0x7F :: byte] \<and>
   unat ((27 :: ui32) div 8) \<le> length [1, 0, 0 :: byte] \<and>
   unat ((27 :: ui32) div 8) < length [0x00, 0x01, 0xFF, 0x7F :: byte] \<and>
   (\<exists>out. print_hex_par [0x00, 0x01, 0xFF, 0x7F] 27 [1, 0, 0] = Some out \<and>
      \<not> flagged out 0 \<and> \<not> flagged out 1 \<and> flagged out 2)"
proof -
  have n: "unat ((27 :: ui32) div 8) = 3"
    by simp
  have d: "unat ((27 :: ui32) div 8) \<le> length [0x00, 0x01, 0xFF, 0x7F :: byte]"
    and par: "unat ((27 :: ui32) div 8) \<le> length [1, 0, 0 :: byte]"
    and rest: "(27 :: ui32) mod 8 \<noteq> 0
      \<longrightarrow> unat ((27 :: ui32) div 8) < length [0x00, 0x01, 0xFF, 0x7F :: byte]"
    by (simp_all add: n)
  from print_hex_par_marks [OF d par rest]
  obtain out where out: "print_hex_par [0x00, 0x01, 0xFF, 0x7F] 27 [1, 0, 0] = Some out"
    and marks: "\<forall>i < unat ((27 :: ui32) div 8).
        flagged out i \<longleftrightarrow> oddparity ([0x00, 0x01, 0xFF, 0x7F] ! i) \<noteq> [1, 0, 0 :: byte] ! i"
    by blast
  have "oddparity 0x00 = 1" "oddparity 0x01 = 0" "oddparity 0xFF = 1"
    by (simp_all add: oddparity_def OddParity_def)
  with marks have "\<not> flagged out 0 \<and> \<not> flagged out 1 \<and> flagged out 2"
    by (simp add: n)
  with out d par show ?thesis
    by (simp add: n)
qed

section \<open>Properties of the UID emulation\<close>

text \<open>The option loop: only a UID given as last argument changes a reply buffer.\<close>

lemma upt4: "[0..<4] = [0, 1, 2, 3]"
  by (simp add: upt_rec)

lemma set_uid_initial:
  "set_uid strtol16 arg (abtUidBcc (initial g))
     = map (\<lambda>i. word_of_int (strtol16 (take 2 (drop (2 * i) arg)))) [0..<4]
       @ [bcc (map (\<lambda>i. word_of_int (strtol16 (take 2 (drop (2 * i) arg)))) [0..<4])]"
  by (simp add: set_uid_def initial_def bcc_def upt4 Let_def xor.assoc mult.commute)

lemma main_options_Inr:
  "main_options strtol16 args st = Inr st' \<Longrightarrow>
   abtAtqa st' = abtAtqa st \<and> abtSak st' = abtSak st \<and>
   abtUidBcc st' = (if args \<noteq> [] \<and> length (last args) = 8
                    then set_uid strtol16 (last args) (abtUidBcc st)
                    else abtUidBcc st)"
proof (induction args arbitrary: st)
  case Nil
  then show ?case by simp
next
  case (Cons arg rest)
  show ?case
  proof (cases "arg = ''-q''")
    case True
    with Cons.prems have "main_options strtol16 rest (st\<lparr>quiet_output := True\<rparr>) = Inr st'"
      by simp
    from Cons.IH [OF this] True show ?thesis
      by (cases "rest = []") simp_all
  next
    case False
    with Cons.prems have "arg \<noteq> ''-h''" and "rest = []" and "length arg = 8"
      by (auto split: if_splits)
    with False Cons.prems show ?thesis
      by auto
  qed
qed

lemma configured:
  assumes "main_options strtol16 args (initial g) = Inr st0"
  shows "abtAtqa st0 = [0x04, 0x00]"
    and "abtUidBcc st0 = configured_uid strtol16 args @ [bcc (configured_uid strtol16 args)]"
    and "abtSak st0 = [0x08, 0xb6, 0xdd, 0x00, 0x00, 0x00, 0x00, 0x00, 0x00]"
proof -
  note eq = main_options_Inr [OF assms]
  from eq show "abtAtqa st0 = [0x04, 0x00]"
    by (simp add: initial_def)
  from eq show "abtSak st0 = [0x08, 0xb6, 0xdd, 0x00, 0x00, 0x00, 0x00, 0x00, 0x00]"
    by (simp add: initial_def)
  show "abtUidBcc st0 = configured_uid strtol16 args @ [bcc (configured_uid strtol16 args)]"
  proof (cases "args \<noteq> [] \<and> length (last args) = 8")
    case True
    with eq have "abtUidBcc st0 = set_uid strtol16 (last args) (abtUidBcc (initial g))"
      by simp
    with True show ?thesis
      by (simp add: set_uid_initial configured_uid_def)
  next
    case False
    with eq have "abtUidBcc st0 = abtUidBcc (initial g)"
      by auto
    with False show ?thesis
      by (auto simp: configured_uid_def initial_def bcc_def)
  qed
qed

lemma length_configured_uid: "length (configured_uid strtol16 args) = 4"
  by (simp add: configured_uid_def)

text \<open>
  One pass through the loop: it never dereferences a null pointer, what it hands to the
  transport is selected by the bit count alone, and it changes no variable other than
  \<open>pbtTx\<close> and \<open>szTxBits\<close>.
\<close>

lemma main_loop_body_frame:
  "\<exists>r. main_loop_body st (Some (abtRecv, n)) send_ok = Some r \<and>
     send_bits r = (if n = 7 then Some (abtAtqa st, 16)
                    else if n = 16 then Some (abtUidBcc st, 40)
                    else if n = 72 then Some (abtSak st, 24)
                    else None) \<and>
     exited r = (if send_bits r \<noteq> None \<and> \<not> send_ok then Some EXIT_FAILURE else None) \<and>
     vars r = st\<lparr>pbtTx := pbtTx (vars r), szTxBits := szTxBits (vars r)\<rparr>"
  by (simp add: main_loop_body_def pointee_def Let_def)

lemma main_loop_body_idle:
  "main_loop_body st None send_ok
     = Some \<lparr>vars = st, send_bits = None, printed = [], exited = None\<rparr>"
  by (simp add: main_loop_body_def)

lemma main_loop_body_vars:
  "main_loop_body st rx send_ok = Some r \<Longrightarrow>
   vars r = st\<lparr>pbtTx := pbtTx (vars r), szTxBits := szTxBits (vars r)\<rparr>"
proof (cases rx)
  case None
  assume "main_loop_body st rx send_ok = Some r"
  with None show ?thesis
    by (auto simp: main_loop_body_idle)
next
  case (Some f)
  assume r: "main_loop_body st rx send_ok = Some r"
  obtain abtRecv n where "f = (abtRecv, n)"
    by (cases f)
  with Some r main_loop_body_frame [of st abtRecv n send_ok] show ?thesis
    by auto
qed

lemma running_identity:
  "running st0 st \<Longrightarrow>
   abtAtqa st = abtAtqa st0 \<and> abtUidBcc st = abtUidBcc st0 \<and> abtSak st = abtSak st0
   \<and> quiet_output st = quiet_output st0"
proof (induction rule: running.induct)
  case entered
  show ?case by simp
next
  case (passed st rx send_ok r)
  from main_loop_body_vars [OF passed.hyps(2)] passed.IH show ?case
    by (metis emulator.select_convs emulator.surjective emulator.update_convs)
qed


lemma main_loop_body_total: "\<exists>r. main_loop_body st rx send_ok = Some r"
proof (cases rx)
  case None
  then show ?thesis
    by (simp add: main_loop_body_idle)
next
  case (Some f)
  obtain abtRecv n where "f = (abtRecv, n)"
    by (cases f)
  with Some main_loop_body_frame [of st abtRecv n send_ok] show ?thesis
    by auto
qed

text \<open>
  The values of \<open>pbtTx\<close> and \<open>szTxBits\<close> at the start of a pass have no influence on it.
\<close>

lemma main_loop_body_locals:
  "map_option (\<lambda>r. (send_bits r, printed r, exited r))
     (main_loop_body (st\<lparr>pbtTx := p, szTxBits := k\<rparr>) rx send_ok)
   = map_option (\<lambda>r. (send_bits r, printed r, exited r)) (main_loop_body st rx send_ok)"
  by (cases rx) (auto simp: main_loop_body_def pointee_def Let_def)

lemma main_loop_identity:
  "main_loop st events = Some (st', frames, code) \<Longrightarrow>
   abtAtqa st' = abtAtqa st \<and> abtUidBcc st' = abtUidBcc st \<and> abtSak st' = abtSak st"
proof (induction events arbitrary: st frames)
  case Nil
  then show ?case by simp
next
  case (Cons e events)
  obtain rx send_ok where e: "e = (rx, send_ok)"
    by (cases e)
  from main_loop_body_total obtain r where r: "main_loop_body st rx send_ok = Some r"
    by blast
  have keep: "abtAtqa (vars r) = abtAtqa st \<and> abtUidBcc (vars r) = abtUidBcc st
      \<and> abtSak (vars r) = abtSak st"
    using main_loop_body_vars [OF r]
    by (metis emulator.select_convs emulator.surjective emulator.update_convs)
  show ?case
  proof (cases "exited r")
    case (Some c)
    with Cons.prems e r keep show ?thesis
      by auto
  next
    case None
    with Cons.prems e r obtain fs where "main_loop (vars r) events = Some (st', fs, code)"
      by (auto split: option.splits)
    from Cons.IH [OF this] keep show ?thesis
      by simp
  qed
qed

text \<open>Values used in the examples.\<close>

lemma crc_a_bytes_sak: "crc_a_bytes [0x08] = [0xb6, 0xdd]"
  by (simp add: crc_a_bytes_def crc_a_def crc_a_byte_eq crc_fold_def)

lemma example_options:
  "main_options hex_digits [''-q'', ''01020304''] (initial 0)
     = Inr \<lparr>abtAtqa = [0x04, 0x00], abtUidBcc = [0x01, 0x02, 0x03, 0x04, 0x04],
            abtSak = [0x08, 0xb6, 0xdd, 0x00, 0x00, 0x00, 0x00, 0x00, 0x00],
            pbtTx = NULL, szTxBits = 0, quiet_output = True\<rparr>"
  by (simp add: initial_def set_uid_def upt4 hex_digits_def hex_value_def isspace_def Let_def)

lemma example_uid: "configured_uid hex_digits [''-q'', ''01020304''] = [0x01, 0x02, 0x03, 0x04]"
  by (simp add: configured_uid_def upt4 hex_digits_def hex_value_def isspace_def Let_def)

text \<open>
  Claim C1. In the running emulation the reply to an inbound frame depends on the bit
  length of the frame only, not on its bytes: for 7 bits it is the two bytes of the ATQA
  at 16 bits, for 16 bits the five bytes UID and BCC at 40 bits, for 72 bits the three
  bytes SAK and CRC at 24 bits; for any other length nothing is sent and the program
  goes on, the frame is ignored.
\<close>

theorem reply_by_bit_length:
  "main_options strtol16 args (initial g) = Inr st0 \<Longrightarrow> running st0 st \<Longrightarrow>
   \<exists>r. main_loop_body st (Some (abtRecv, n)) send_ok = Some r \<and>
     map_option (\<lambda>f. (frame_bytes f, snd f)) (send_bits r)
       = (if n = 7 then Some ([0x04, 0x00], 16)
          else if n = 16
          then Some (configured_uid strtol16 args @ [bcc (configured_uid strtol16 args)], 40)
          else if n = 72 then Some ([0x08, 0xb6, 0xdd], 24)
          else None) \<and>
     length (configured_uid strtol16 args @ [bcc (configured_uid strtol16 args)]) = 5 \<and>
     exited r = (if send_bits r \<noteq> None \<and> \<not> send_ok then Some EXIT_FAILURE else None)"
proof -
  assume cfg: "main_options strtol16 args (initial g) = Inr st0" and run: "running st0 st"
  from running_identity [OF run] configured [OF cfg]
  have id: "abtAtqa st = [0x04, 0x00]"
    "abtUidBcc st = configured_uid strtol16 args @ [bcc (configured_uid strtol16 args)]"
    "abtSak st = [0x08, 0xb6, 0xdd, 0x00, 0x00, 0x00, 0x00, 0x00, 0x00]"
    by simp_all
  from main_loop_body_frame [of st abtRecv n send_ok] obtain r
    where r: "main_loop_body st (Some (abtRecv, n)) send_ok = Some r"
      and sent: "send_bits r = (if n = 7 then Some (abtAtqa st, 16)
                    else if n = 16 then Some (abtUidBcc st, 40)
                    else if n = 72 then Some (abtSak st, 24)
                    else None)"
      and ex: "exited r = (if send_bits r \<noteq> None \<and> \<not> send_ok then Some EXIT_FAILURE else None)"
    by blast
  have "map_option (\<lambda>f. (frame_bytes f, snd f)) (send_bits r)
       = (if n = 7 then Some ([0x04, 0x00], 16)
          else if n = 16
          then Some (configured_uid strtol16 args @ [bcc (configured_uid strtol16 args)], 40)
          else if n = 72 then Some ([0x08, 0xb6, 0xdd], 24)
          else None)"
    unfolding sent id by (simp add: frame_bytes_def length_configured_uid)
  with r ex show ?thesis
    by (simp add: length_configured_uid)
qed

theorem reply_by_bit_length_witness:
  "\<exists>st0. main_options hex_digits [''-q'', ''01020304''] (initial 0) = Inr st0 \<and> running st0 st0 \<and>
     (\<exists>r. main_loop_body st0 (Some ([0x26], 7)) True = Some r \<and>
        map_option (\<lambda>f. (frame_bytes f, snd f)) (send_bits r) = Some ([0x04, 0x00], 16) \<and>
        exited r = None) \<and>
     (\<exists>r. main_loop_body st0 (Some ([0x93, 0x20], 16)) True = Some r \<and>
        map_option (\<lambda>f. (frame_bytes f, snd f)) (send_bits r)
          = Some ([0x01, 0x02, 0x03, 0x04, 0x04], 40)) \<and>
     (\<exists>r. main_loop_body st0 (Some ([0x26, 0x00, 0x00, 0x00, 0x00], 33)) True = Some r \<and>
        send_bits r = None \<and> exited r = None)"
proof -
  let ?st0 = "\<lparr>abtAtqa = [0x04, 0x00], abtUidBcc = [0x01, 0x02, 0x03, 0x04, 0x04],
            abtSak = [0x08, 0xb6, 0xdd, 0x00, 0x00, 0x00, 0x00, 0x00, 0x00],
            pbtTx = NULL, szTxBits = 0, quiet_output = True\<rparr>"
  note cfg = example_options
  have run: "running ?st0 ?st0"
    by (rule running.entered)
  have bcc: "bcc [0x01, 0x02, 0x03, 0x04] = 0x04"
    by (simp add: bcc_def)
  from reply_by_bit_length [OF cfg run, of "[0x26]" 7 True]
  have 1: "\<exists>r. main_loop_body ?st0 (Some ([0x26], 7)) True = Some r \<and>
        map_option (\<lambda>f. (frame_bytes f, snd f)) (send_bits r) = Some ([0x04, 0x00], 16) \<and>
        exited r = None"
    by auto
  from reply_by_bit_length [OF cfg run, of "[0x93, 0x20]" 16 True]
  have 2: "\<exists>r. main_loop_body ?st0 (Some ([0x93, 0x20], 16)) True = Some r \<and>
        map_option (\<lambda>f. (frame_bytes f, snd f)) (send_bits r)
          = Some ([0x01, 0x02, 0x03, 0x04, 0x04], 40)"
    by (auto simp: example_uid bcc)
  from reply_by_bit_length [OF cfg run, of "[0x26, 0x00, 0x00, 0x00, 0x00]" 33 True]
  have 3: "\<exists>r. main_loop_body ?st0 (Some ([0x26, 0x00, 0x00, 0x00, 0x00], 33)) True = Some r \<and>
        send_bits r = None \<and> exited r = None"
    by auto
  from cfg run 1 2 3 show ?thesis
    by blast
qed


text \<open>
  Claim C3. For every configured UID, the default \<open>DE AD BE AF\<close> or one given as
  argument, the reply to a 16-bit frame is the four UID bytes followed by the exclusive
  or of the four; for \<open>DE AD BE AF\<close> this is \<open>DE AD BE AF 62\<close>, at 40 bits.
\<close>

theorem uid_reply_bcc:
  "main_options strtol16 args (initial g) = Inr st0 \<Longrightarrow> running st0 st \<Longrightarrow>
   length (configured_uid strtol16 args) = 4 \<and>
   (\<exists>r. main_loop_body st (Some (abtRecv, 16)) send_ok = Some r \<and>
      send_bits r
        = Some (configured_uid strtol16 args @ [bcc (configured_uid strtol16 args)], 40)) \<and>
   configured_uid strtol16 [] = [0xDE, 0xAD, 0xBE, 0xAF] \<and>
   bcc [0xDE, 0xAD, 0xBE, 0xAF] = 0x62"
proof -
  assume cfg: "main_options strtol16 args (initial g) = Inr st0" and run: "running st0 st"
  from running_identity [OF run] configured(2) [OF cfg]
  have "abtUidBcc st = configured_uid strtol16 args @ [bcc (configured_uid strtol16 args)]"
    by simp
  with main_loop_body_frame [of st abtRecv 16 send_ok]
  have "\<exists>r. main_loop_body st (Some (abtRecv, 16)) send_ok = Some r \<and>
      send_bits r
        = Some (configured_uid strtol16 args @ [bcc (configured_uid strtol16 args)], 40)"
    by auto
  then show ?thesis
    by (simp add: length_configured_uid configured_uid_def bcc_def)
qed

theorem uid_reply_bcc_witness:
  "(\<exists>st0. main_options hex_digits [''-q'', ''01020304''] (initial 0) = Inr st0 \<and> running st0 st0 \<and>
     (\<exists>r. main_loop_body st0 (Some ([0x93, 0x20], 16)) True = Some r \<and>
        send_bits r = Some ([0x01, 0x02, 0x03, 0x04, 0x01 XOR 0x02 XOR 0x03 XOR 0x04], 40))) \<and>
   main_options hex_digits [] (initial 0) = Inr (initial 0) \<and> running (initial 0) (initial 0) \<and>
   (\<exists>r. main_loop_body (initial 0) (Some ([0x93, 0x20], 16)) True = Some r \<and>
      send_bits r = Some ([0xDE, 0xAD, 0xBE, 0xAF, 0x62], 40))"
proof -
  let ?st0 = "\<lparr>abtAtqa = [0x04, 0x00], abtUidBcc = [0x01, 0x02, 0x03, 0x04, 0x04],
            abtSak = [0x08, 0xb6, 0xdd, 0x00, 0x00, 0x00, 0x00, 0x00, 0x00],
            pbtTx = NULL, szTxBits = 0, quiet_output = True\<rparr>"
  note cfg = example_options
  have run: "running ?st0 ?st0"
    by (rule running.entered)
  from uid_reply_bcc [OF cfg run, of "[0x93, 0x20]" True]
  have 1: "\<exists>r. main_loop_body ?st0 (Some ([0x93, 0x20], 16)) True = Some r \<and>
        send_bits r = Some ([0x01, 0x02, 0x03, 0x04, 0x01 XOR 0x02 XOR 0x03 XOR 0x04], 40)"
    by (auto simp: example_uid bcc_def)
  have cfg0: "main_options hex_digits [] (initial 0) = Inr (initial 0)"
    by simp
  have run0: "running (initial 0) (initial 0)"
    by (rule running.entered)
  from uid_reply_bcc [OF cfg0 run0, of "[0x93, 0x20]" True]
  have 2: "\<exists>r. main_loop_body (initial 0) (Some ([0x93, 0x20], 16)) True = Some r \<and>
      send_bits r = Some ([0xDE, 0xAD, 0xBE, 0xAF, 0x62], 40)"
    by auto
  from cfg run 1 cfg0 run0 2 show ?thesis
    by blast
qed

text \<open>
  Claim C4. The three bytes sent in reply to a 72-bit frame are the SAK byte \<open>08\<close>
  followed by the two checksum bytes of that one byte, low byte first; they are what
  \<open>append_iso14443a_crc\<close> stores behind the SAK byte.
\<close>

theorem sak_reply_crc:
  "main_options strtol16 args (initial g) = Inr st0 \<Longrightarrow> running st0 st \<Longrightarrow>
   \<exists>r. main_loop_body st (Some (abtRecv, 72)) send_ok = Some r \<and>
     map_option snd (send_bits r) = Some 24 \<and>
     map_option frame_bytes (send_bits r) = Some (0x08 # crc_a_bytes [0x08]) \<and>
     append_iso14443a_crc (take 3 (abtSak st)) 1 = Some (take 3 (abtSak st))"
proof -
  assume cfg: "main_options strtol16 args (initial g) = Inr st0" and run: "running st0 st"
  from running_identity [OF run] configured(3) [OF cfg]
  have sak: "abtSak st = [0x08, 0xb6, 0xdd, 0x00, 0x00, 0x00, 0x00, 0x00, 0x00]"
    by simp
  from main_loop_body_frame [of st abtRecv 72 send_ok] obtain r
    where r: "main_loop_body st (Some (abtRecv, 72)) send_ok = Some r"
      and sent: "send_bits r = Some (abtSak st, 24)"
    by auto
  have "append_iso14443a_crc (take 3 (abtSak st)) 1 = Some (take 3 (abtSak st))"
    unfolding sak by (simp add: append_iso14443a_crc_eq iterations_eq crc_a_bytes_sak)
  with r sent show ?thesis
    by (simp add: sak frame_bytes_def crc_a_bytes_sak)
qed

theorem sak_reply_crc_witness:
  "main_options hex_digits [] (initial 0) = Inr (initial 0) \<and> running (initial 0) (initial 0) \<and>
   (\<exists>r. main_loop_body (initial 0) (Some ([0x93, 0x70, 0xDE, 0xAD, 0xBE, 0xAF, 0x62, 0x00, 0x00], 72)) True
          = Some r \<and>
      map_option frame_bytes (send_bits r) = Some [0x08, 0xb6, 0xdd])"
proof -
  have cfg0: "main_options hex_digits [] (initial 0) = Inr (initial 0)"
    by simp
  have run0: "running (initial 0) (initial 0)"
    by (rule running.entered)
  from sak_reply_crc [OF cfg0 run0,
      of "[0x93, 0x70, 0xDE, 0xAD, 0xBE, 0xAF, 0x62, 0x00, 0x00]" True]
  have "\<exists>r. main_loop_body (initial 0)
        (Some ([0x93, 0x70, 0xDE, 0xAD, 0xBE, 0xAF, 0x62, 0x00, 0x00], 72)) True = Some r \<and>
      map_option frame_bytes (send_bits r) = Some [0x08, 0xb6, 0xdd]"
    by (auto simp: crc_a_bytes_sak)
  with cfg0 run0 show ?thesis
    by blast
qed

text \<open>What a pass prints and when it makes the program exit.\<close>

lemma main_loop_body_trace:
  "main_loop_body st rx send_ok = Some r \<Longrightarrow>
   printed r = trace (quiet_output st) rx (send_bits r) send_ok \<and>
   exited r = (if send_bits r \<noteq> None \<and> \<not> send_ok then Some EXIT_FAILURE else None)"
  by (cases rx) (auto simp: main_loop_body_def pointee_def Let_def trace_def split: if_splits)

text \<open>
  Claim C9, amended. Handling a frame does not change the emulated identity: one pass
  through the loop, and so any run of the loop, leaves the ATQA, UID and BCC, and SAK
  buffers as they were. A pass changes only \<open>pbtTx\<close> and \<open>szTxBits\<close>, and their values
  have no influence on what a later pass sends, prints or returns. Besides the frame
  handed to the transport, a pass shows on the console and in the exit status: unless the
  output is quiet it prints the received frame (after a blank line for a 7-bit frame)
  and, after a successful send, the sent frame; when the send fails it prints the error
  message and the program exits with \<open>EXIT_FAILURE\<close>, and it exits in no other case.
\<close>

theorem handling_keeps_identity:
  "(main_loop_body st rx send_ok = Some r \<longrightarrow>
      abtAtqa (vars r) = abtAtqa st \<and> abtUidBcc (vars r) = abtUidBcc st \<and>
      abtSak (vars r) = abtSak st \<and>
      vars r = st\<lparr>pbtTx := pbtTx (vars r), szTxBits := szTxBits (vars r)\<rparr> \<and>
      printed r = trace (quiet_output st) rx (send_bits r) send_ok \<and>
      exited r = (if send_bits r \<noteq> None \<and> \<not> send_ok then Some EXIT_FAILURE else None))
   \<and> (running st0 st \<longrightarrow>
        abtAtqa st = abtAtqa st0 \<and> abtUidBcc st = abtUidBcc st0 \<and> abtSak st = abtSak st0)
   \<and> (main_loop st events = Some (st', frames, code) \<longrightarrow>
        abtAtqa st' = abtAtqa st \<and> abtUidBcc st' = abtUidBcc st \<and> abtSak st' = abtSak st)
   \<and> map_option (\<lambda>r. (send_bits r, printed r, exited r))
        (main_loop_body (st\<lparr>pbtTx := p, szTxBits := k\<rparr>) rx send_ok)
      = map_option (\<lambda>r. (send_bits r, printed r, exited r)) (main_loop_body st rx send_ok)"
proof (intro conjI impI)
  assume r: "main_loop_body st rx send_ok = Some r"
  from main_loop_body_vars [OF r]
  show "vars r = st\<lparr>pbtTx := pbtTx (vars r), szTxBits := szTxBits (vars r)\<rparr>" .
  then show "abtAtqa (vars r) = abtAtqa st" and "abtUidBcc (vars r) = abtUidBcc st"
    and "abtSak (vars r) = abtSak st"
    by (metis emulator.select_convs emulator.surjective emulator.update_convs)+
next
  assume "main_loop_body st rx send_ok = Some r"
  from main_loop_body_trace [OF this]
  show "printed r = trace (quiet_output st) rx (send_bits r) send_ok"
    and "exited r = (if send_bits r \<noteq> None \<and> \<not> send_ok then Some EXIT_FAILURE else None)"
    by simp_all
next
  assume "running st0 st"
  from running_identity [OF this]
  show "abtAtqa st = abtAtqa st0" and "abtUidBcc st = abtUidBcc st0" and "abtSak st = abtSak st0"
    by simp_all
next
  assume "main_loop st events = Some (st', frames, code)"
  from main_loop_identity [OF this]
  show "abtAtqa st' = abtAtqa st" and "abtUidBcc st' = abtUidBcc st" and "abtSak st' = abtSak st"
    by simp_all
next
  show "map_option (\<lambda>r. (send_bits r, printed r, exited r))
        (main_loop_body (st\<lparr>pbtTx := p, szTxBits := k\<rparr>) rx send_ok)
      = map_option (\<lambda>r. (send_bits r, printed r, exited r)) (main_loop_body st rx send_ok)"
    by (rule main_loop_body_locals)
qed

theorem handling_keeps_identity_witness:
  "(\<exists>r. main_loop_body (initial 0) (Some ([0x26], 7)) True = Some r \<and>
      running (initial 0) (vars r) \<and>
      abtAtqa (vars r) = [0x04, 0x00] \<and>
      abtUidBcc (vars r) = [0xDE, 0xAD, 0xBE, 0xAF, 0x62] \<and>
      abtSak (vars r) = [0x08, 0xb6, 0xdd, 0x00, 0x00, 0x00, 0x00, 0x00, 0x00] \<and>
      printed r = [Blank_line, Received [0x26] 7, Transmitted [0x04, 0x00] 16] \<and>
      exited r = None) \<and>
   (\<exists>st' frames code.
      main_loop (initial 0) [(Some ([0x26], 7), True), (Some ([0x93, 0x20], 16), True)]
        = Some (st', frames, code) \<and>
      abtUidBcc st' = [0xDE, 0xAD, 0xBE, 0xAF, 0x62])"
proof -
  from main_loop_body_frame [of "initial 0" "[0x26]" 7 True] obtain r
    where r: "main_loop_body (initial 0) (Some ([0x26], 7)) True = Some r"
      and sent: "send_bits r = Some (abtAtqa (initial 0), 16)"
      and ex: "exited r = None"
    by auto
  have run: "running (initial 0) (vars r)"
    using running.entered r ex by (rule running.passed)
  from handling_keeps_identity [of "vars r" None True r "initial 0"] run
  have "abtAtqa (vars r) = abtAtqa (initial 0) \<and> abtUidBcc (vars r) = abtUidBcc (initial 0)
      \<and> abtSak (vars r) = abtSak (initial 0)"
    by blast
  then have 1: "abtAtqa (vars r) = [0x04, 0x00] \<and>
      abtUidBcc (vars r) = [0xDE, 0xAD, 0xBE, 0xAF, 0x62] \<and>
      abtSak (vars r) = [0x08, 0xb6, 0xdd, 0x00, 0x00, 0x00, 0x00, 0x00, 0x00]"
    by (simp add: initial_def)
  from handling_keeps_identity [of "initial 0" "Some ([0x26], 7)" True r] r
  have "printed r = trace (quiet_output (initial 0)) (Some ([0x26], 7)) (send_bits r) True"
    by blast
  then have 2: "printed r = [Blank_line, Received [0x26] 7, Transmitted [0x04, 0x00] 16]"
    by (simp add: sent trace_def initial_def)
  let ?events = "[(Some ([0x26 :: byte], 7 :: nat), True), (Some ([0x93, 0x20], 16), True)]"
  have loop: "main_loop (initial 0) ?events
      = Some (initial 0\<lparr>pbtTx := Ptr_abtUidBcc, szTxBits := 40\<rparr>,
              [Some ([0x04, 0x00], 16), Some ([0xDE, 0xAD, 0xBE, 0xAF, 0x62], 40)], None)"
    by (simp add: main_loop_body_def pointee_def initial_def)
  with handling_keeps_identity [of "initial 0" None True r "initial 0" ?events
      "initial 0\<lparr>pbtTx := Ptr_abtUidBcc, szTxBits := 40\<rparr>"
      "[Some ([0x04, 0x00], 16), Some ([0xDE, 0xAD, 0xBE, 0xAF, 0x62], 40)]" None]
  have "abtUidBcc (initial 0\<lparr>pbtTx := Ptr_abtUidBcc, szTxBits := 40\<rparr>) = abtUidBcc (initial 0)"
    by blast
  then have 3: "abtUidBcc (initial 0\<lparr>pbtTx := Ptr_abtUidBcc, szTxBits := 40\<rparr>)
      = [0xDE, 0xAD, 0xBE, 0xAF, 0x62]"
    by (simp add: initial_def)
  from r run 1 2 ex loop 3 show ?thesis
    by blast
qed

text \<open>
  Claim C9 as first stated, with the reply frame as the only thing to observe, fails: in
  the default mode a frame of 8 bits gets no reply and is still printed, and in quiet
  mode a send that fails prints the error message and ends the program.
\<close>

theorem handling_observable_counterexample:
  "main_loop_body (initial 0) (Some ([0xFF], 8)) True
     = Some \<lparr>vars = initial 0\<lparr>szTxBits := 0\<rparr>, send_bits = None,
             printed = [Received [0xFF] 8], exited = None\<rparr> \<and>
   main_loop_body (initial 0\<lparr>quiet_output := True\<rparr>) (Some ([0x26], 7)) False
     = Some \<lparr>vars = initial 0\<lparr>quiet_output := True, pbtTx := Ptr_abtAtqa, szTxBits := 16\<rparr>,
             send_bits = Some ([0x04, 0x00], 16),
             printed = [Perror ''nfc_target_send_bits''], exited = Some EXIT_FAILURE\<rparr>"
  by (simp add: main_loop_body_def pointee_def initial_def)

end
